theory Spec2Isabelle
  imports Main "HOL-Library.Multiset" "HOL-Library.Sublist"
begin

section \<open>The mailbox queue: \<open>caf::detail::thread_safe_queue\<close>\<close>

subsection \<open>Nodes and the queue object\<close>

text \<open>
  The queue is a doubly linked list of heap nodes behind a dummy head node. A
  \<open>node_pointer\<close> is an address; address \<open>0\<close> is \<open>nullptr\<close>. The payload pointer
  \<open>value\<close> of a node is never dereferenced by the queue, so it is an \<open>'a option\<close> with
  \<open>None\<close> for \<open>nullptr\<close>. The padding members carry no behaviour and are left out.
\<close>

type_synonym node_pointer = nat

abbreviation nullptr :: node_pointer where
  "nullptr \<equiv> 0"

record 'a node =
  node_value :: "'a option"
  node_next :: node_pointer
  node_prev :: node_pointer

text \<open>\<open>explicit node(pointer val) : value(val), next(nullptr), prev(nullptr)\<close>\<close>

definition mk_node :: "'a option \<Rightarrow> 'a node" where
  "mk_node v = \<lparr>node_value = v, node_next = nullptr, node_prev = nullptr\<rparr>"

text \<open>
  The queue object together with the memory its nodes live in. \<open>heap\<close> gives the
  contents of every address, \<open>live\<close> the addresses handed out by \<open>new\<close> and not yet
  deleted, \<open>fresh\<close> the next address \<open>new\<close> hands out (it never returns the address of
  a live node; the model does not reuse addresses). \<open>head_ptr\<close> and \<open>tail_ptr\<close> are the
  members \<open>head_\<close> and \<open>tail_\<close>. The condition variable \<open>cv_\<close> is seen through its two
  effects: \<open>cv_notified\<close> counts the calls of \<open>cv_.notify_one()\<close>, \<open>cv_blocked\<close> adds up
  the time callers spent blocked inside \<open>cv_.wait_for\<close>. The mutex \<open>lock_\<close> makes every
  member function one atomic step; each function below is such a step.
\<close>

record 'a thread_safe_queue =
  heap :: "node_pointer \<Rightarrow> 'a node"
  live :: "node_pointer set"
  fresh :: node_pointer
  head_ptr :: node_pointer
  tail_ptr :: node_pointer
  cv_notified :: nat
  cv_blocked :: nat

subsection \<open>Memory primitives\<close>

definition new_node :: "'a option \<Rightarrow> 'a thread_safe_queue \<Rightarrow> node_pointer \<times> 'a thread_safe_queue" where
  "new_node v q =
     (fresh q,
      q\<lparr>heap := (heap q)(fresh q := mk_node v),
        live := insert (fresh q) (live q),
        fresh := Suc (fresh q)\<rparr>)"

definition delete_node :: "node_pointer \<Rightarrow> 'a thread_safe_queue \<Rightarrow> 'a thread_safe_queue" where
  "delete_node p q = q\<lparr>live := live q - {p}\<rparr>"

definition set_next :: "node_pointer \<Rightarrow> node_pointer \<Rightarrow> 'a thread_safe_queue \<Rightarrow> 'a thread_safe_queue" where
  "set_next p x q = q\<lparr>heap := (heap q)(p := (heap q p)\<lparr>node_next := x\<rparr>)\<rparr>"

definition set_prev :: "node_pointer \<Rightarrow> node_pointer \<Rightarrow> 'a thread_safe_queue \<Rightarrow> 'a thread_safe_queue" where
  "set_prev p x q = q\<lparr>heap := (heap q)(p := (heap q p)\<lparr>node_prev := x\<rparr>)\<rparr>"

definition set_value :: "node_pointer \<Rightarrow> 'a option \<Rightarrow> 'a thread_safe_queue \<Rightarrow> 'a thread_safe_queue" where
  "set_value p v q = q\<lparr>heap := (heap q)(p := (heap q p)\<lparr>node_value := v\<rparr>)\<rparr>"

definition notify_one :: "'a thread_safe_queue \<Rightarrow> 'a thread_safe_queue" where
  "notify_one q = q\<lparr>cv_notified := Suc (cv_notified q)\<rparr>"

text \<open>
  \<open>cv_.wait_for(guard, rel_time, pred)\<close> of the C++ standard library is
  \<^verbatim>\<open>while (!pred()) if (wait_until(guard, now + rel_time) == timeout) return pred(); return true;\<close>
  The caller holds the lock and is alone with the queue, so \<open>pred()\<close> has one value \<open>p\<close>
  throughout and nobody notifies: when \<open>p\<close> holds the call returns \<open>true\<close> at once,
  otherwise the thread is blocked for \<open>rel_time\<close> and the call returns \<open>p\<close>.
\<close>

definition wait_for :: "nat \<Rightarrow> bool \<Rightarrow> 'a thread_safe_queue \<Rightarrow> bool \<times> 'a thread_safe_queue" where
  "wait_for rel_time p q =
     (if \<not> p then (p, q\<lparr>cv_blocked := cv_blocked q + rel_time\<rparr>) else (True, q))"

subsection \<open>Member functions\<close>

text \<open>The memory before the constructor runs: nothing allocated, no node at address 0.\<close>

definition raw_memory :: "'a thread_safe_queue" where
  "raw_memory =
     \<lparr>heap = (\<lambda>_. mk_node None), live = {}, fresh = Suc nullptr,
      head_ptr = nullptr, tail_ptr = nullptr, cv_notified = 0, cv_blocked = 0\<rparr>"

text \<open>\<open>thread_safe_queue()\<close>: one dummy node, both \<open>head_\<close> and \<open>tail_\<close> point to it.\<close>

definition thread_safe_queue_ctor :: "'a thread_safe_queue" where
  "thread_safe_queue_ctor =
     (let (ptr, q) = new_node None raw_memory
      in q\<lparr>head_ptr := ptr, tail_ptr := ptr\<rparr>)"

text \<open>
  \<open>template <bool NotifyConsumer = true> void append(pointer value)\<close>. The function
  asserts \<open>value != nullptr\<close>, so the argument is an \<open>'a\<close> and the node stores
  \<open>Some v\<close>. \<open>append_q\<close> is the call \<open>append(value)\<close> with the default template
  argument, \<open>internal_append\<close> the member function of that name.
\<close>

definition append_tpl :: "bool \<Rightarrow> 'a \<Rightarrow> 'a thread_safe_queue \<Rightarrow> 'a thread_safe_queue" where
  "append_tpl NotifyConsumer v q =
     (let (tmp, q1) = new_node (Some v) q;
          tail = tail_ptr q1;
          q2 = set_next tail tmp q1;
          q3 = set_prev tmp tail q2;
          q4 = (if NotifyConsumer \<and> tail = head_ptr q3 then notify_one q3 else q3)
      in q4\<lparr>tail_ptr := tmp\<rparr>)"

definition append_q :: "'a \<Rightarrow> 'a thread_safe_queue \<Rightarrow> 'a thread_safe_queue" where
  "append_q v q = append_tpl True v q"

definition internal_append :: "'a \<Rightarrow> 'a thread_safe_queue \<Rightarrow> 'a thread_safe_queue" where
  "internal_append v q = append_tpl False v q"

text \<open>
  \<open>template <bool NotifyConsumer = true> void prepend(pointer value)\<close>, with the same
  assertion. The head is a dummy, so the new node becomes the second one.
\<close>

definition prepend_tpl :: "bool \<Rightarrow> 'a \<Rightarrow> 'a thread_safe_queue \<Rightarrow> 'a thread_safe_queue" where
  "prepend_tpl NotifyConsumer v q =
     (let (tmp, q1) = new_node (Some v) q;
          head = head_ptr q1;
          nxt = node_next (heap q1 head)
      in if nxt \<noteq> nullptr then
           (let q2 = set_prev tmp head q1;
                q3 = set_next head tmp q2;
                q4 = set_next tmp nxt q3
            in set_prev nxt tmp q4)
         else
           (let q2 = set_prev tmp head q1;
                q3 = set_next head tmp q2;
                q4 = q3\<lparr>tail_ptr := tmp\<rparr>
            in if NotifyConsumer then notify_one q4 else q4))"

definition prepend_q :: "'a \<Rightarrow> 'a thread_safe_queue \<Rightarrow> 'a thread_safe_queue" where
  "prepend_q v q = prepend_tpl True v q"

definition internal_prepend :: "'a \<Rightarrow> 'a thread_safe_queue \<Rightarrow> 'a thread_safe_queue" where
  "internal_prepend v q = prepend_tpl False v q"

text \<open>
  \<open>try_take_head_impl(Predicate pred)\<close>. The predicate receives the lock and
  \<open>head->next\<close>; it may block, so it is a state transformer. When it answers \<open>true\<close>
  the old head is released, not deleted. Otherwise the value moves out of the second
  node, which becomes the new dummy head, and the \<open>unique_ptr\<close> deletes the old one.
\<close>

definition try_take_head_impl ::
  "(node_pointer \<Rightarrow> 'a thread_safe_queue \<Rightarrow> bool \<times> 'a thread_safe_queue)
   \<Rightarrow> 'a thread_safe_queue \<Rightarrow> 'a option \<times> 'a thread_safe_queue" where
  "try_take_head_impl pred q =
     (let head = head_ptr q;
          (is_empty, q0) = pred (node_next (heap q head)) q
      in if is_empty then (None, q0)
         else
           (let nxt = node_next (heap q0 head);
                result = node_value (heap q0 nxt);
                q1 = set_value nxt None q0;
                q2 = set_prev nxt nullptr q1;
                q3 = q2\<lparr>head_ptr := nxt\<rparr>
            in (result, delete_node head q3)))"

text \<open>\<open>pointer try_take_head()\<close>: the predicate is \<open>ptr == nullptr\<close>.\<close>

definition try_take_head :: "'a thread_safe_queue \<Rightarrow> 'a option \<times> 'a thread_safe_queue" where
  "try_take_head q = try_take_head_impl (\<lambda>ptr q'. (ptr = nullptr, q')) q"

text \<open>
  \<open>pointer try_take_head(Duration rel_time)\<close>: the predicate is
  \<open>cv_.wait_for(guard, rel_time, [&] { return ptr == nullptr; })\<close>.
\<close>

definition try_take_head_for :: "nat \<Rightarrow> 'a thread_safe_queue \<Rightarrow> 'a option \<times> 'a thread_safe_queue" where
  "try_take_head_for rel_time q =
     try_take_head_impl (\<lambda>ptr q'. wait_for rel_time (ptr = nullptr) q') q"

text \<open>\<open>pointer try_take_tail()\<close>\<close>

definition try_take_tail :: "'a thread_safe_queue \<Rightarrow> 'a option \<times> 'a thread_safe_queue" where
  "try_take_tail q =
     (let tail = tail_ptr q
      in if tail = head_ptr q then (None, q)
         else
           (let result = node_value (heap q tail);
                prv = node_prev (heap q tail);
                q1 = set_next prv nullptr q;
                q2 = q1\<lparr>tail_ptr := prv\<rparr>
            in (result, delete_node tail q2)))"

text \<open>\<open>bool empty() const\<close>\<close>

definition empty_q :: "'a thread_safe_queue \<Rightarrow> bool" where
  "empty_q q \<longleftrightarrow> head_ptr q = tail_ptr q"

subsection \<open>The list a queue holds\<close>

text \<open>
  \<open>walk h k p\<close> follows \<open>next\<close> pointers from \<open>p\<close> for at most \<open>k\<close> nodes. Every live
  address is below \<open>fresh\<close>, so \<open>fresh\<close> steps reach the end of a well-formed queue.
  \<open>items\<close> are the values behind the dummy head, in the order \<open>try_take_head\<close> meets
  them.
\<close>

fun walk :: "(node_pointer \<Rightarrow> 'a node) \<Rightarrow> nat \<Rightarrow> node_pointer \<Rightarrow> node_pointer list" where
  "walk h 0 p = []"
| "walk h (Suc k) p = (if p = nullptr then [] else p # walk h k (node_next (h p)))"

definition nodes :: "'a thread_safe_queue \<Rightarrow> node_pointer list" where
  "nodes q = walk (heap q) (fresh q) (head_ptr q)"

definition values_of :: "(node_pointer \<Rightarrow> 'a node) \<Rightarrow> node_pointer list \<Rightarrow> 'a list" where
  "values_of h ps = List.map_filter (\<lambda>p. node_value (h p)) ps"

definition items :: "'a thread_safe_queue \<Rightarrow> 'a list" where
  "items q = values_of (heap q) (tl (nodes q))"

text \<open>
  \<open>dll h p ns a\<close>: starting at pointer \<open>a\<close>, whose predecessor is \<open>p\<close>, the \<open>next\<close>
  pointers run through exactly the nodes \<open>ns\<close> and end in \<open>nullptr\<close>, and every
  \<open>prev\<close> pointer points one node back.
\<close>

primrec dll :: "(node_pointer \<Rightarrow> 'a node) \<Rightarrow> node_pointer \<Rightarrow> node_pointer list \<Rightarrow> node_pointer \<Rightarrow> bool" where
  "dll h p [] a \<longleftrightarrow> a = nullptr"
| "dll h p (n # ns) a \<longleftrightarrow>
     a = n \<and> n \<noteq> nullptr \<and> node_prev (h n) = p \<and> dll h n ns (node_next (h n))"

definition wf_nodes :: "'a thread_safe_queue \<Rightarrow> node_pointer list \<Rightarrow> bool" where
  "wf_nodes q ns \<longleftrightarrow>
     dll (heap q) nullptr ns (head_ptr q) \<and> ns \<noteq> [] \<and> last ns = tail_ptr q \<and>
     distinct ns \<and> list_all (\<lambda>n. n < fresh q) ns \<and> live q = set ns \<and>
     node_value (heap q (head_ptr q)) = None \<and>
     list_all (\<lambda>n. node_value (heap q n) \<noteq> None) (tl ns)"

text \<open>
  The invariant of the class: the nodes reachable from \<open>head_\<close> form a doubly linked
  list that ends in \<open>tail_\<close>, they are exactly the live nodes, the head is a dummy
  without a value and every other node carries one.
\<close>

definition wf_queue :: "'a thread_safe_queue \<Rightarrow> bool" where
  "wf_queue q \<longleftrightarrow> wf_nodes q (nodes q)"

subsection \<open>Callers of the queue\<close>

text \<open>
  A caller's history is a list of calls. \<open>step\<close> makes one call and records what a
  take returned (\<open>None\<close> for \<open>nullptr\<close>); \<open>run\<close> makes the calls of a history in
  order. \<open>returned\<close> are the items the takes handed out, \<open>appended\<close>, \<open>prepended\<close>
  and \<open>inserted\<close> the items a history put in, in the order of the calls.
\<close>

datatype 'a call = Append 'a | Prepend 'a | Take_head | Take_tail

fun step :: "'a thread_safe_queue \<times> 'a option list \<Rightarrow> 'a call \<Rightarrow> 'a thread_safe_queue \<times> 'a option list" where
  "step (q, out) (Append v) = (append_q v q, out)"
| "step (q, out) (Prepend v) = (prepend_q v q, out)"
| "step (q, out) Take_head = (snd (try_take_head q), out @ [fst (try_take_head q)])"
| "step (q, out) Take_tail = (snd (try_take_tail q), out @ [fst (try_take_tail q)])"

definition run :: "'a call list \<Rightarrow> 'a thread_safe_queue \<Rightarrow> 'a thread_safe_queue \<times> 'a option list" where
  "run cs q = foldl step (q, []) cs"

fun returned :: "'a option list \<Rightarrow> 'a list" where
  "returned [] = []"
| "returned (None # rs) = returned rs"
| "returned (Some v # rs) = v # returned rs"

text \<open>
  The order in which items leave through \<open>try_take_head\<close>: those a history has
  been handed already, then those still queued, head first.
\<close>

definition dequeue_order :: "'a thread_safe_queue \<times> 'a option list \<Rightarrow> 'a list" where
  "dequeue_order s = returned (snd s) @ items (fst s)"

fun appended :: "'a call list \<Rightarrow> 'a list" where
  "appended [] = []"
| "appended (Append v # cs) = v # appended cs"
| "appended (c # cs) = appended cs"

fun prepended :: "'a call list \<Rightarrow> 'a list" where
  "prepended [] = []"
| "prepended (Prepend v # cs) = v # prepended cs"
| "prepended (c # cs) = prepended cs"

fun inserted :: "'a call list \<Rightarrow> 'a list" where
  "inserted [] = []"
| "inserted (Append v # cs) = v # inserted cs"
| "inserted (Prepend v # cs) = v # inserted cs"
| "inserted (c # cs) = inserted cs"

fun last_inserted :: "'a call list \<Rightarrow> 'a option" where
  "last_inserted [] = None"
| "last_inserted (Append v # cs) = (case last_inserted cs of None \<Rightarrow> Some v | Some w \<Rightarrow> Some w)"
| "last_inserted (Prepend v # cs) = (case last_inserted cs of None \<Rightarrow> Some v | Some w \<Rightarrow> Some w)"
| "last_inserted (c # cs) = last_inserted cs"

section \<open>Proxy registry and publish/connect\<close>

text \<open>
  The middleman's registry and endpoint code is not among the sources at hand; only
  its test \<open>identity_semantics_udp\<close> is. The definitions of this section follow the
  specification, sections 3, 4.2, 4.3 and 7.
\<close>

type_synonym node_id = nat
type_synonym actor_id = nat
type_synonym actor_address = "node_id \<times> actor_id"
type_synonym port = nat
type_synonym host = string

datatype error = NodeUnreachable | PortInUse | HandshakeTypeMismatch | Timeout | NetworkError

text \<open>
  Modelled from the spec: the Proxy object, which is missing from the sources. A proxy
  is an object with an identity of its own, \<open>proxy_ref\<close>, beside the address it stands
  for; its mailbox, links, monitors and lifecycle state play no part in the lookup.
\<close>

record proxy =
  proxy_ref :: nat
  proxy_address :: actor_address

text \<open>
  Modelled from the spec: the Proxy Registry, which is missing from the sources. Its
  entries map an address to its proxy, \<open>next_ref\<close> is the identity the next created
  proxy gets, \<open>connections\<close> are the nodes with a live Connection. The registry's lock
  makes every call one atomic step.
\<close>

record proxy_registry =
  entries :: "(actor_address \<times> proxy) list"
  next_ref :: nat
  connections :: "node_id list"

definition new_registry :: proxy_registry where
  "new_registry = \<lparr>entries = [], next_ref = 0, connections = []\<rparr>"

text \<open>
  Modelled from the spec: \<open>get_or_create(address) -> Proxy\<close>, which is missing from the
  sources. "If an entry exists, return it; otherwise atomically create and insert one.
  If the owning Connection is absent or torn down, get_or_create fails with
  NodeUnreachable rather than fabricating a Proxy."
\<close>

definition get_or_create :: "actor_address \<Rightarrow> proxy_registry \<Rightarrow> (error + proxy) \<times> proxy_registry" where
  "get_or_create a reg =
     (case map_of (entries reg) a of
        Some p \<Rightarrow> (Inr p, reg)
      | None \<Rightarrow>
          if fst a \<in> set (connections reg) then
            (let p = \<lparr>proxy_ref = next_ref reg, proxy_address = a\<rparr>
             in (Inr p, reg\<lparr>entries := (a, p) # entries reg, next_ref := Suc (next_ref reg)\<rparr>))
          else (Inl NodeUnreachable, reg))"

text \<open>
  Modelled from the spec: \<open>connect(host, port) -> ActorHandle\<close>, which is missing from
  the sources. \<open>net\<close> is the outcome of the handshake with the peer at \<open>(host, port)\<close>:
  the address it answers with, or the error the handshake ends in. A successful
  handshake creates the Connection to the peer's node if there is none, then the
  address is resolved through the registry; a failed one leaves the registry as it
  was.
\<close>

definition connect ::
  "(host \<times> port \<Rightarrow> error + actor_address) \<Rightarrow> host \<Rightarrow> port \<Rightarrow> proxy_registry
   \<Rightarrow> (error + proxy) \<times> proxy_registry" where
  "connect net h p reg =
     (case net (h, p) of
        Inl e \<Rightarrow> (Inl e, reg)
      | Inr a \<Rightarrow> get_or_create a (reg\<lparr>connections := List.insert (fst a) (connections reg)\<rparr>))"

text \<open>Calls of other threads that the registry's lock puts between two calls.\<close>

definition resolve_all :: "actor_address list \<Rightarrow> proxy_registry \<Rightarrow> proxy_registry" where
  "resolve_all bs reg = fold (\<lambda>b r. snd (get_or_create b r)) bs reg"

text \<open>
  Invariant (1) of the data model: one entry per address, each entry's proxy stands
  for the entry's address, and no two entries share a proxy object.
\<close>

definition registry_ok :: "proxy_registry \<Rightarrow> bool" where
  "registry_ok reg \<longleftrightarrow>
     distinct (map fst (entries reg)) \<and>
     distinct (map (\<lambda>e. proxy_ref (snd e)) (entries reg)) \<and>
     list_all (\<lambda>e. proxy_address (snd e) = fst e \<and> proxy_ref (snd e) < next_ref reg) (entries reg)"

text \<open>
  Modelled from the spec: the port the operating system assigns when port 0 is
  requested, which is missing from the sources. It is never 0 and never a port that
  is bound; the model takes the port above the highest bound one.
\<close>

definition ephemeral_port :: "port list \<Rightarrow> port" where
  "ephemeral_port bound = Suc (fold max bound 0)"

text \<open>
  Modelled from the spec: \<open>publish(local_actor, requested_port, ...) ->
  EndpointInfo{assigned_port}\<close>, which is missing from the sources. The state is the
  table of bound endpoints of one transport, newest first. "Requesting port 0 yields
  an OS-assigned ephemeral port. Fails with PortInUse if an explicit port is already
  bound."
\<close>

definition publish ::
  "actor_address \<Rightarrow> port \<Rightarrow> (port \<times> actor_address) list
   \<Rightarrow> (error + port) \<times> (port \<times> actor_address) list" where
  "publish a requested eps =
     (if requested = 0 then
        (let p = ephemeral_port (map fst eps) in (Inr p, (p, a) # eps))
      else if requested \<in> set (map fst eps) then (Inl PortInUse, eps)
      else (Inr requested, (requested, a) # eps))"

text \<open>
  Modelled from the spec: the peer's side of the handshake, which is missing from the
  sources. The peer answers with the address of the actor bound to the port; no
  endpoint at the port means no answer, and the caller times out.
\<close>

definition handshake :: "(port \<times> actor_address) list \<Rightarrow> host \<times> port \<Rightarrow> error + actor_address" where
  "handshake eps hp = (case map_of eps (snd hp) of None \<Rightarrow> Inl Timeout | Some a \<Rightarrow> Inr a)"

section \<open>The legacy wildcard: \<open>cppa::any_type\<close>\<close>

datatype any_type = Any_type

definition any_val :: any_type where
  "any_val = Any_type"

text \<open>
  The three overloads of \<open>operator==\<close> and of \<open>operator!=\<close>, in the order of the
  header: both sides \<open>any_type\<close>, \<open>any_type\<close> on the right, \<open>any_type\<close> on the left.
\<close>

definition eq_any_any :: "any_type \<Rightarrow> any_type \<Rightarrow> bool" where
  "eq_any_any a b = True"

definition eq_T_any :: "'t \<Rightarrow> any_type \<Rightarrow> bool" where
  "eq_T_any x a = True"

definition eq_any_T :: "any_type \<Rightarrow> 't \<Rightarrow> bool" where
  "eq_any_T a x = True"

definition ne_any_any :: "any_type \<Rightarrow> any_type \<Rightarrow> bool" where
  "ne_any_any a b = False"

definition ne_T_any :: "'t \<Rightarrow> any_type \<Rightarrow> bool" where
  "ne_T_any x a = False"

definition ne_any_T :: "any_type \<Rightarrow> 't \<Rightarrow> bool" where
  "ne_any_T a x = False"

section \<open>The class invariant\<close>

subsection \<open>Doubly linked lists in the heap\<close>

lemma dll_frame:
  "p \<notin> set ns \<Longrightarrow> dll (h(p := x)) pr ns a = dll h pr ns a"
  by (induction ns arbitrary: pr a) auto

lemma dll_cong:
  "(\<And>n. n \<in> set ns \<Longrightarrow> node_next (h' n) = node_next (h n) \<and> node_prev (h' n) = node_prev (h n))
   \<Longrightarrow> dll h' pr ns a = dll h pr ns a"
  by (induction ns arbitrary: pr a) auto

lemma dll_walk:
  "dll h pr ns a \<Longrightarrow> length ns \<le> k \<Longrightarrow> walk h k a = ns"
proof (induction ns arbitrary: pr a k)
  case Nil
  then show ?case by (cases k) auto
next
  case (Cons n ns)
  then obtain k' where k: "k = Suc k'" by (cases k) auto
  with Cons show ?case by auto
qed

lemma dll_last_next:
  "dll h pr ns a \<Longrightarrow> ns \<noteq> [] \<Longrightarrow> node_next (h (last ns)) = nullptr"
  by (induction ns arbitrary: pr a) (auto split: if_splits)

lemma dll_hd:
  "dll h pr ns a \<Longrightarrow> ns \<noteq> [] \<Longrightarrow> hd ns = a"
  by (cases ns) auto

lemma dll_nonnull:
  "dll h pr ns a \<Longrightarrow> nullptr \<notin> set ns"
  by (induction ns arbitrary: pr a) auto

lemma dll_snoc:
  "dll h pr ns a \<Longrightarrow> ns \<noteq> [] \<Longrightarrow> t \<notin> set ns \<Longrightarrow> t \<noteq> nullptr \<Longrightarrow> distinct ns \<Longrightarrow>
   dll (h(last ns := (h (last ns))\<lparr>node_next := t\<rparr>,
          t := \<lparr>node_value = v, node_next = nullptr, node_prev = last ns\<rparr>)) pr (ns @ [t]) a"
proof (induction ns arbitrary: pr a)
  case Nil
  then show ?case by simp
next
  case (Cons n ns)
  show ?case
  proof (cases "ns = []")
    case True
    with Cons.prems show ?thesis by auto
  next
    case False
    define h' where "h' = h(last ns := (h (last ns))\<lparr>node_next := t\<rparr>,
          t := \<lparr>node_value = v, node_next = nullptr, node_prev = last ns\<rparr>)"
    from Cons.prems False have "dll h' n (ns @ [t]) (node_next (h n))"
      unfolding h'_def by (intro Cons.IH) auto
    moreover have "n \<noteq> last ns" "n \<noteq> t" using Cons.prems False by auto
    then have "h' n = h n" by (simp add: h'_def)
    ultimately have "dll h' pr (n # ns @ [t]) a" using Cons.prems by simp
    then show ?thesis unfolding h'_def by (simp only: last_ConsR[OF False] append_Cons)
  qed
qed

lemma dll_butlast:
  "dll h pr (xs @ [t]) a \<Longrightarrow> xs \<noteq> [] \<Longrightarrow> distinct (xs @ [t]) \<Longrightarrow>
   node_prev (h t) = last xs \<and>
   dll (h(last xs := (h (last xs))\<lparr>node_next := nullptr\<rparr>)) pr xs a"
proof (induction xs arbitrary: pr a)
  case Nil
  then show ?case by simp
next
  case (Cons n xs)
  show ?case
  proof (cases "xs = []")
    case True
    with Cons.prems show ?thesis by auto
  next
    case False
    define h' where "h' = h(last xs := (h (last xs))\<lparr>node_next := nullptr\<rparr>)"
    from Cons.prems False have ih: "node_prev (h t) = last xs \<and> dll h' n xs (node_next (h n))"
      unfolding h'_def by (intro Cons.IH) auto
    have "n \<noteq> last xs" using Cons.prems False by auto
    then have "h' n = h n" by (simp add: h'_def)
    with ih Cons.prems have "node_prev (h t) = last xs \<and> dll h' pr (n # xs) a" by simp
    then show ?thesis unfolding h'_def by (simp only: last_ConsR[OF False])
  qed
qed

subsection \<open>The invariant fixes the node list\<close>

lemma length_le_bound:
  assumes "distinct ns" "list_all (\<lambda>n. n < (b::nat)) ns"
  shows "length ns \<le> b"
proof -
  have "set ns \<subseteq> {..<b}" using assms(2) by (auto simp: list_all_iff)
  then have "card (set ns) \<le> card {..<b}" by (intro card_mono) auto
  with assms(1) show ?thesis by (simp add: distinct_card)
qed

lemma wf_nodes_nodes:
  "wf_nodes q ns \<Longrightarrow> nodes q = ns"
  unfolding wf_nodes_def nodes_def
  by (auto intro!: dll_walk length_le_bound)

lemma wf_iff: "wf_queue q \<longleftrightarrow> (\<exists>ns. wf_nodes q ns)"
  unfolding wf_queue_def using wf_nodes_nodes by metis

lemma wfI: "wf_nodes q ns \<Longrightarrow> wf_queue q"
  using wf_iff by blast

lemma wf_nodesI:
  assumes "dll (heap q) nullptr ns (head_ptr q)" "ns \<noteq> []" "last ns = tail_ptr q"
    "distinct ns" "list_all (\<lambda>n. n < fresh q) ns" "live q = set ns"
    "node_value (heap q (head_ptr q)) = None"
    "list_all (\<lambda>n. node_value (heap q n) \<noteq> None) (tl ns)"
  shows "wf_nodes q ns"
  using assms by (simp add: wf_nodes_def)

lemma wf_nodesD:
  assumes "wf_nodes q ns"
  shows "dll (heap q) nullptr ns (head_ptr q)" "ns \<noteq> []" "last ns = tail_ptr q"
    "distinct ns" "list_all (\<lambda>n. n < fresh q) ns" "live q = set ns"
    "node_value (heap q (head_ptr q)) = None"
    "list_all (\<lambda>n. node_value (heap q n) \<noteq> None) (tl ns)"
    "hd ns = head_ptr q" "fresh q \<notin> set ns" "fresh q \<noteq> nullptr" "nullptr \<notin> set ns"
proof -
  show d: "dll (heap q) nullptr ns (head_ptr q)" and ne: "ns \<noteq> []"
    and "last ns = tail_ptr q" "distinct ns" and lt: "list_all (\<lambda>n. n < fresh q) ns"
    and "live q = set ns" "node_value (heap q (head_ptr q)) = None"
    "list_all (\<lambda>n. node_value (heap q n) \<noteq> None) (tl ns)"
    using assms by (simp_all add: wf_nodes_def)
  show "hd ns = head_ptr q" using d ne by (rule dll_hd)
  show "fresh q \<notin> set ns" using lt by (auto simp: list_all_iff)
  show "nullptr \<notin> set ns" using d by (rule dll_nonnull)
  from ne lt have "hd ns < fresh q" by (cases ns) auto
  then show "fresh q \<noteq> nullptr" by simp
qed

lemma wf_nodes_items: "wf_nodes q ns \<Longrightarrow> items q = values_of (heap q) (tl ns)"
  by (simp add: items_def wf_nodes_nodes)

lemma values_of_cong:
  "(\<And>n. n \<in> set ps \<Longrightarrow> node_value (h' n) = node_value (h n))
   \<Longrightarrow> values_of h' ps = values_of h ps"
  unfolding values_of_def List.map_filter_def
  by (induction ps) auto

lemma values_of_simps [simp]:
  "values_of h [] = []"
  "values_of h (p # ps) = (case node_value (h p) of None \<Rightarrow> values_of h ps | Some v \<Rightarrow> v # values_of h ps)"
  "values_of h (ps @ rs) = values_of h ps @ values_of h rs"
  unfolding values_of_def List.map_filter_def by (auto split: option.splits)

lemma values_of_length:
  "list_all (\<lambda>n. node_value (h n) \<noteq> None) ps \<Longrightarrow> length (values_of h ps) = length ps"
  by (induction ps) (auto split: option.splits)

lemma wf_nodes_items_Nil:
  assumes "wf_nodes q ns"
  shows "items q = [] \<longleftrightarrow> tl ns = []"
proof -
  have "length (items q) = length (tl ns)"
    unfolding wf_nodes_items[OF assms] by (rule values_of_length[OF wf_nodesD(8)[OF assms]])
  then show ?thesis by (metis length_0_conv)
qed

lemma wf_nodes_empty:
  assumes "wf_nodes q ns"
  shows "empty_q q \<longleftrightarrow> tl ns = []"
proof (cases ns)
  case Nil
  with assms show ?thesis by (simp add: wf_nodes_def)
next
  case (Cons n rest)
  have h: "head_ptr q = n" using wf_nodesD(9)[OF assms] Cons by simp
  have t: "tail_ptr q = last (n # rest)" using wf_nodesD(3)[OF assms] Cons by simp
  have dist: "n \<notin> set rest" using wf_nodesD(4)[OF assms] Cons by simp
  show ?thesis
  proof (cases "rest = []")
    case True
    with h t Cons show ?thesis by (simp add: empty_q_def)
  next
    case False
    then have "last (n # rest) \<in> set rest" by simp
    with dist have "last (n # rest) \<noteq> n" by metis
    with h t False Cons show ?thesis by (simp add: empty_q_def)
  qed
qed

lemma wf_nodes_head_next:
  assumes "wf_nodes q ns"
  shows "node_next (heap q (head_ptr q)) = (if tl ns = [] then nullptr else hd (tl ns))"
proof (cases ns)
  case Nil
  with assms show ?thesis by (simp add: wf_nodes_def)
next
  case (Cons n rest)
  with wf_nodesD(1)[OF assms] show ?thesis by (cases rest) auto
qed

subsection \<open>What each member function does to the fields\<close>

lemma append_tpl_fields:
  assumes "tail_ptr q \<noteq> fresh q"
  shows "heap (append_tpl b v q) =
           (heap q)(tail_ptr q := (heap q (tail_ptr q))\<lparr>node_next := fresh q\<rparr>,
                    fresh q := \<lparr>node_value = Some v, node_next = nullptr, node_prev = tail_ptr q\<rparr>)"
    and "live (append_tpl b v q) = insert (fresh q) (live q)"
    and "fresh (append_tpl b v q) = Suc (fresh q)"
    and "head_ptr (append_tpl b v q) = head_ptr q"
    and "tail_ptr (append_tpl b v q) = fresh q"
    and "cv_notified (append_tpl b v q) =
           (if b \<and> tail_ptr q = head_ptr q then Suc (cv_notified q) else cv_notified q)"
    and "cv_blocked (append_tpl b v q) = cv_blocked q"
  using assms
  by (auto simp: append_tpl_def new_node_def set_next_def set_prev_def notify_one_def
      mk_node_def Let_def fun_upd_twist)

lemma append_tpl_notified:
  "cv_notified (append_tpl b v q) =
     (if b \<and> tail_ptr q = head_ptr q then Suc (cv_notified q) else cv_notified q)"
  by (simp add: append_tpl_def new_node_def set_next_def set_prev_def notify_one_def Let_def)

lemma prepend_tpl_fields_nonempty:
  assumes "node_next (heap q (head_ptr q)) \<noteq> nullptr" "head_ptr q \<noteq> fresh q"
    "node_next (heap q (head_ptr q)) \<noteq> fresh q" "node_next (heap q (head_ptr q)) \<noteq> head_ptr q"
  shows "heap (prepend_tpl b v q) =
           (heap q)(fresh q := \<lparr>node_value = Some v, node_next = node_next (heap q (head_ptr q)),
                                 node_prev = head_ptr q\<rparr>,
                    head_ptr q := (heap q (head_ptr q))\<lparr>node_next := fresh q\<rparr>,
                    node_next (heap q (head_ptr q)) :=
                      (heap q (node_next (heap q (head_ptr q))))\<lparr>node_prev := fresh q\<rparr>)"
    and "live (prepend_tpl b v q) = insert (fresh q) (live q)"
    and "fresh (prepend_tpl b v q) = Suc (fresh q)"
    and "head_ptr (prepend_tpl b v q) = head_ptr q"
    and "tail_ptr (prepend_tpl b v q) = tail_ptr q"
    and "cv_notified (prepend_tpl b v q) = cv_notified q"
    and "cv_blocked (prepend_tpl b v q) = cv_blocked q"
  using assms
  by (auto simp: prepend_tpl_def new_node_def set_next_def set_prev_def notify_one_def
      mk_node_def Let_def)

lemma prepend_tpl_fields_empty:
  assumes "node_next (heap q (head_ptr q)) = nullptr" "head_ptr q \<noteq> fresh q"
  shows "heap (prepend_tpl b v q) =
           (heap q)(head_ptr q := (heap q (head_ptr q))\<lparr>node_next := fresh q\<rparr>,
                    fresh q := \<lparr>node_value = Some v, node_next = nullptr, node_prev = head_ptr q\<rparr>)"
    and "live (prepend_tpl b v q) = insert (fresh q) (live q)"
    and "fresh (prepend_tpl b v q) = Suc (fresh q)"
    and "head_ptr (prepend_tpl b v q) = head_ptr q"
    and "tail_ptr (prepend_tpl b v q) = fresh q"
    and "cv_notified (prepend_tpl b v q) = (if b then Suc (cv_notified q) else cv_notified q)"
    and "cv_blocked (prepend_tpl b v q) = cv_blocked q"
  using assms
  by (auto simp: prepend_tpl_def new_node_def set_next_def set_prev_def notify_one_def
      mk_node_def Let_def fun_upd_twist)

lemma prepend_tpl_notified:
  "head_ptr q \<noteq> fresh q \<Longrightarrow>
   cv_notified (prepend_tpl b v q) =
     (if b \<and> node_next (heap q (head_ptr q)) = nullptr then Suc (cv_notified q) else cv_notified q)"
  by (simp add: prepend_tpl_def new_node_def set_next_def set_prev_def notify_one_def Let_def)

lemma try_take_head_empty:
  "node_next (heap q (head_ptr q)) = nullptr \<Longrightarrow> try_take_head q = (None, q)"
  by (simp add: try_take_head_def try_take_head_impl_def)

lemma try_take_head_fields:
  assumes "node_next (heap q (head_ptr q)) = n1" "n1 \<noteq> nullptr"
  shows "fst (try_take_head q) = node_value (heap q n1)"
    and "heap (snd (try_take_head q)) =
           (heap q)(n1 := (heap q n1)\<lparr>node_value := None, node_prev := nullptr\<rparr>)"
    and "live (snd (try_take_head q)) = live q - {head_ptr q}"
    and "fresh (snd (try_take_head q)) = fresh q"
    and "head_ptr (snd (try_take_head q)) = n1"
    and "tail_ptr (snd (try_take_head q)) = tail_ptr q"
    and "cv_notified (snd (try_take_head q)) = cv_notified q"
    and "cv_blocked (snd (try_take_head q)) = cv_blocked q"
  using assms
  by (auto simp: try_take_head_def try_take_head_impl_def set_value_def set_prev_def
      delete_node_def Let_def)

lemma try_take_head_for_empty:
  "node_next (heap q (head_ptr q)) = nullptr \<Longrightarrow> try_take_head_for t q = (None, q)"
  by (simp add: try_take_head_for_def try_take_head_impl_def wait_for_def)

lemma try_take_tail_empty:
  "tail_ptr q = head_ptr q \<Longrightarrow> try_take_tail q = (None, q)"
  by (simp add: try_take_tail_def)

lemma try_take_tail_fields:
  assumes "tail_ptr q \<noteq> head_ptr q"
  shows "fst (try_take_tail q) = node_value (heap q (tail_ptr q))"
    and "heap (snd (try_take_tail q)) =
           (heap q)(node_prev (heap q (tail_ptr q)) :=
                      (heap q (node_prev (heap q (tail_ptr q))))\<lparr>node_next := nullptr\<rparr>)"
    and "live (snd (try_take_tail q)) = live q - {tail_ptr q}"
    and "fresh (snd (try_take_tail q)) = fresh q"
    and "head_ptr (snd (try_take_tail q)) = head_ptr q"
    and "tail_ptr (snd (try_take_tail q)) = node_prev (heap q (tail_ptr q))"
    and "cv_notified (snd (try_take_tail q)) = cv_notified q"
    and "cv_blocked (snd (try_take_tail q)) = cv_blocked q"
  using assms
  by (auto simp: try_take_tail_def set_next_def delete_node_def Let_def)

subsection \<open>Every member function keeps the invariant\<close>

lemma ctor_wf_nodes: "wf_nodes thread_safe_queue_ctor [Suc nullptr]"
  by (simp add: wf_nodes_def thread_safe_queue_ctor_def raw_memory_def new_node_def mk_node_def)

lemma append_tpl_wf_nodes:
  assumes "wf_nodes q ns"
  shows "wf_nodes (append_tpl b v q) (ns @ [fresh q])"
    and "values_of (heap (append_tpl b v q)) (tl (ns @ [fresh q])) = values_of (heap q) (tl ns) @ [v]"
proof -
  note D = wf_nodesD[OF assms]
  let ?f = "fresh q" and ?t = "tail_ptr q"
  have tin: "?t \<in> set ns" using D(2,3) by (metis last_in_set)
  then have tf: "?t \<noteq> ?f" using D(10) by metis
  note F = append_tpl_fields[OF tf, of b v]
  have hin: "head_ptr q \<in> set ns" using D(2,9) by (metis hd_in_set)
  have val: "node_value (heap (append_tpl b v q) n) = node_value (heap q n)" if "n \<in> set ns" for n
    using that D(10) by (auto simp: F(1))
  have valf: "node_value (heap (append_tpl b v q) ?f) = Some v" by (simp add: F(1))
  have tlsplit: "tl (ns @ [?f]) = tl ns @ [?f]" using D(2) by simp
  have tlsub: "set (tl ns) \<subseteq> set ns" using D(2) by (metis list.set_sel(2) subsetI)
  show "wf_nodes (append_tpl b v q) (ns @ [fresh q])"
  proof (rule wf_nodesI)
    show "dll (heap (append_tpl b v q)) nullptr (ns @ [?f]) (head_ptr (append_tpl b v q))"
      unfolding F D(3)[symmetric] using D by (intro dll_snoc) auto
    show "ns @ [?f] \<noteq> []" by simp
    show "last (ns @ [?f]) = tail_ptr (append_tpl b v q)" by (simp add: F)
    show "distinct (ns @ [?f])" using D by simp
    show "list_all (\<lambda>n. n < fresh (append_tpl b v q)) (ns @ [?f])"
      using D(5) by (auto simp: F list_all_iff)
    show "live (append_tpl b v q) = set (ns @ [?f])" using D(6) by (simp add: F)
    show "node_value (heap (append_tpl b v q) (head_ptr (append_tpl b v q))) = None"
      using val[OF hin] D(7) by (simp add: F(4))
    show "list_all (\<lambda>n. node_value (heap (append_tpl b v q) n) \<noteq> None) (tl (ns @ [?f]))"
      unfolding tlsplit using D(8) tlsub valf val by (auto simp: list_all_iff)
  qed
  have "values_of (heap (append_tpl b v q)) (tl ns) = values_of (heap q) (tl ns)"
    using val tlsub by (intro values_of_cong) auto
  then show "values_of (heap (append_tpl b v q)) (tl (ns @ [fresh q])) = values_of (heap q) (tl ns) @ [v]"
    unfolding tlsplit using valf by simp
qed

lemma prepend_tpl_wf_nodes:
  assumes "wf_nodes q ns"
  shows "wf_nodes (prepend_tpl b v q) (hd ns # fresh q # tl ns)"
    and "values_of (heap (prepend_tpl b v q)) (tl (hd ns # fresh q # tl ns)) = v # values_of (heap q) (tl ns)"
proof -
  note D = wf_nodesD[OF assms]
  let ?f = "fresh q" and ?h = "head_ptr q" and ?q' = "prepend_tpl b v q"
  obtain rest where ns: "ns = ?h # rest" using D(2,9) by (cases ns) auto
  have hf: "?h \<noteq> ?f" using D(10) ns by auto
  have "wf_nodes ?q' (?h # ?f # rest) \<and> values_of (heap ?q') (?f # rest) = v # values_of (heap q) rest"
  proof (cases rest)
    case Nil
    have nx: "node_next (heap q ?h) = nullptr" using D(1) ns Nil by simp
    note F = prepend_tpl_fields_empty[OF nx hf, of b v]
    have "wf_nodes ?q' (?h # ?f # rest)"
      using D hf unfolding ns Nil by (intro wf_nodesI) (auto simp: F)
    moreover have "values_of (heap ?q') (?f # rest) = v # values_of (heap q) rest"
      unfolding Nil by (simp add: F)
    ultimately show ?thesis by simp
  next
    case (Cons n1 rest')
    have nx: "node_next (heap q ?h) = n1" using D(1) ns Cons by simp
    have n1: "n1 \<noteq> nullptr" "n1 \<noteq> ?f" "n1 \<noteq> ?h" "n1 \<notin> set rest'" "?h \<notin> set rest'" "?f \<notin> set rest'"
      using D(4,10,12) ns Cons by auto
    have F: "heap ?q' = (heap q)(?f := \<lparr>node_value = Some v, node_next = n1, node_prev = ?h\<rparr>,
                    ?h := (heap q ?h)\<lparr>node_next := ?f\<rparr>,
                    n1 := (heap q n1)\<lparr>node_prev := ?f\<rparr>)"
      "live ?q' = insert ?f (live q)" "fresh ?q' = Suc ?f" "head_ptr ?q' = ?h" "tail_ptr ?q' = tail_ptr q"
      using prepend_tpl_fields_nonempty[of q b v] nx n1 hf by simp_all
    have d0: "dll (heap q) n1 rest' (node_next (heap q n1))" using D(1) ns Cons by simp
    have "dll (heap ?q') n1 rest' (node_next (heap q n1)) = dll (heap q) n1 rest' (node_next (heap q n1))"
      using n1 by (intro dll_cong) (auto simp: F)
    with d0 have d1: "dll (heap ?q') n1 rest' (node_next (heap q n1))" by simp
    have d: "dll (heap ?q') nullptr (?h # ?f # n1 # rest') (head_ptr ?q')"
      using d1 D(1,11) n1 hf unfolding ns Cons by (simp add: F)
    have vals: "node_value (heap ?q' n) = node_value (heap q n)" if "n \<in> set ns" for n
      using that D(10) by (auto simp: F)
    have "wf_nodes ?q' (?h # ?f # rest)"
    proof (rule wf_nodesI)
      show "dll (heap ?q') nullptr (?h # ?f # rest) (head_ptr ?q')" using d Cons by simp
      show "last (?h # ?f # rest) = tail_ptr ?q'" using D(3) ns Cons by (simp add: F)
      show "distinct (?h # ?f # rest)" using D(4,10) ns by auto
      show "list_all (\<lambda>n. n < fresh ?q') (?h # ?f # rest)" using D(5) ns by (auto simp: F list_all_iff)
      show "live ?q' = set (?h # ?f # rest)" using D(6) ns by (auto simp: F)
      show "node_value (heap ?q' (head_ptr ?q')) = None" using D(7) hf n1 by (simp add: F)
      show "list_all (\<lambda>n. node_value (heap ?q' n) \<noteq> None) (tl (?h # ?f # rest))"
        using D(8) vals ns n1 hf by (auto simp: list_all_iff F)
    qed simp
    moreover have "values_of (heap ?q') rest = values_of (heap q) rest"
      using vals ns by (intro values_of_cong) auto
    then have "values_of (heap ?q') (?f # rest) = v # values_of (heap q) rest"
      using hf n1 by (simp add: F)
    ultimately show ?thesis by simp
  qed
  then show "wf_nodes (prepend_tpl b v q) (hd ns # fresh q # tl ns)"
    and "values_of (heap (prepend_tpl b v q)) (tl (hd ns # fresh q # tl ns)) = v # values_of (heap q) (tl ns)"
    using ns by simp_all
qed

lemma try_take_head_wf_nodes:
  assumes "wf_nodes q ns" "tl ns \<noteq> []"
  shows "wf_nodes (snd (try_take_head q)) (tl ns)"
    and "values_of (heap q) (tl ns) = the (fst (try_take_head q)) # values_of (heap (snd (try_take_head q))) (tl (tl ns))"
    and "fst (try_take_head q) \<noteq> None"
proof -
  note D = wf_nodesD[OF assms(1)]
  let ?h = "head_ptr q" and ?q' = "snd (try_take_head q)"
  obtain n1 rest where ns: "ns = ?h # n1 # rest"
    using D(2,9) assms(2) by (cases ns; cases "tl ns") auto
  have nx: "node_next (heap q ?h) = n1" and n1: "n1 \<noteq> nullptr" "n1 \<noteq> ?h" "n1 \<notin> set rest" "?h \<notin> set rest"
    using D(1,4) ns by auto
  note F = try_take_head_fields[OF nx n1(1)]
  have v1: "node_value (heap q n1) \<noteq> None" using D(8) ns by simp
  have d0: "dll (heap q) n1 rest (node_next (heap q n1))" using D(1) ns by simp
  have "dll (heap ?q') n1 rest (node_next (heap q n1)) = dll (heap q) n1 rest (node_next (heap q n1))"
    using n1 by (intro dll_cong) (auto simp: F)
  with d0 have d1: "dll (heap ?q') n1 rest (node_next (heap q n1))" by simp
  have vals: "node_value (heap ?q' n) = node_value (heap q n)" if "n \<in> set rest" for n
    using that n1 by (auto simp: F)
  have "wf_nodes ?q' (n1 # rest)"
  proof (rule wf_nodesI)
    show "dll (heap ?q') nullptr (n1 # rest) (head_ptr ?q')" using d1 n1 by (simp add: F)
    show "last (n1 # rest) = tail_ptr ?q'" using D(3) ns by (simp add: F)
    show "distinct (n1 # rest)" using D(4) ns by simp
    show "list_all (\<lambda>n. n < fresh ?q') (n1 # rest)" using D(5) ns by (simp add: F)
    show "live ?q' = set (n1 # rest)" using D(4,6) ns by (auto simp: F)
    show "node_value (heap ?q' (head_ptr ?q')) = None" by (simp add: F)
    show "list_all (\<lambda>n. node_value (heap ?q' n) \<noteq> None) (tl (n1 # rest))"
      using D(8) vals ns by (auto simp: list_all_iff)
  qed simp
  then show "wf_nodes ?q' (tl ns)" using ns by simp
  have "values_of (heap ?q') rest = values_of (heap q) rest"
    using vals by (intro values_of_cong) auto
  then show "values_of (heap q) (tl ns) = the (fst (try_take_head q)) # values_of (heap ?q') (tl (tl ns))"
    using v1 ns by (auto simp: F(1))
  show "fst (try_take_head q) \<noteq> None" using v1 by (simp add: F(1))
qed

lemma try_take_tail_wf_nodes:
  assumes "wf_nodes q ns" "tl ns \<noteq> []"
  shows "wf_nodes (snd (try_take_tail q)) (butlast ns)"
    and "values_of (heap q) (tl ns) = values_of (heap (snd (try_take_tail q))) (tl (butlast ns)) @ [the (fst (try_take_tail q))]"
    and "fst (try_take_tail q) \<noteq> None"
proof -
  note D = wf_nodesD[OF assms(1)]
  let ?t = "tail_ptr q" and ?q' = "snd (try_take_tail q)"
  have ne: "\<not> empty_q q" using wf_nodes_empty[OF assms(1)] assms(2) by simp
  then have th: "?t \<noteq> head_ptr q" by (auto simp: empty_q_def)
  obtain xs where ns: "ns = xs @ [?t]" using D(2,3) by (metis snoc_eq_iff_butlast)
  have xs: "xs \<noteq> []" using assms(2) ns by (cases xs) auto
  have hx: "hd xs = head_ptr q" using D(9) ns xs by simp
  from dll_butlast[of "heap q" nullptr xs ?t "head_ptr q"] D(1,4) xs
  have pv: "node_prev (heap q ?t) = last xs"
    and d: "dll ((heap q)(last xs := (heap q (last xs))\<lparr>node_next := nullptr\<rparr>)) nullptr xs (head_ptr q)"
    unfolding ns by auto
  note F = try_take_tail_fields[OF th, unfolded pv]
  have tin: "?t \<notin> set xs" using D(4) ns by simp
  have vt: "node_value (heap q ?t) \<noteq> None"
    using D(8) ns xs by (cases xs) (auto simp: list_all_iff)
  have vals: "node_value (heap ?q' n) = node_value (heap q n)" for n
    by (auto simp: F)
  have "wf_nodes ?q' xs"
  proof (rule wf_nodesI)
    show "dll (heap ?q') nullptr xs (head_ptr ?q')" using d by (simp add: F)
    show "xs \<noteq> []" by (rule xs)
    show "last xs = tail_ptr ?q'" by (simp add: F)
    show "distinct xs" using D(4) ns by simp
    show "list_all (\<lambda>n. n < fresh ?q') xs" using D(5) ns by (simp add: F)
    show "live ?q' = set xs" using D(6) tin ns by (auto simp: F)
    show "node_value (heap ?q' (head_ptr ?q')) = None" using D(7) vals by (simp add: F(5))
    show "list_all (\<lambda>n. node_value (heap ?q' n) \<noteq> None) (tl xs)"
      using D(8) vals ns xs by (cases xs) (auto simp: list_all_iff)
  qed
  then show "wf_nodes ?q' (butlast ns)" using ns by simp
  have "values_of (heap ?q') (tl xs) = values_of (heap q) (tl xs)"
    using vals by (intro values_of_cong) auto
  moreover have "tl ns = tl xs @ [?t]" using ns xs by simp
  ultimately show "values_of (heap q) (tl ns) = values_of (heap ?q') (tl (butlast ns)) @ [the (fst (try_take_tail q))]"
    using vt ns by (auto simp: F(1))
  show "fst (try_take_tail q) \<noteq> None" using vt by (simp add: F(1))
qed

section \<open>The queue as a list of items\<close>

text \<open>
  On a well-formed queue \<open>append\<close> adds at the back of \<open>items\<close>, \<open>prepend\<close> at the
  front, \<open>try_take_head\<close> takes the first item and \<open>try_take_tail\<close> the last one.
\<close>

lemma wf_ctor: "wf_queue (thread_safe_queue_ctor :: 'a thread_safe_queue)"
  using ctor_wf_nodes by (rule wfI)

lemma items_ctor: "items (thread_safe_queue_ctor :: 'a thread_safe_queue) = []"
  using wf_nodes_items[OF ctor_wf_nodes] by simp

lemma wf_append_tpl: "wf_queue q \<Longrightarrow> wf_queue (append_tpl b v q)"
  by (auto simp: wf_iff intro: append_tpl_wf_nodes(1))

lemma items_append_tpl:
  assumes "wf_queue q"
  shows "items (append_tpl b v q) = items q @ [v]"
proof -
  from assms obtain ns where ns: "wf_nodes q ns" unfolding wf_iff ..
  show ?thesis
    using append_tpl_wf_nodes[OF ns, of b v]
    by (simp add: wf_nodes_items[OF ns] wf_nodes_items[of "append_tpl b v q" "ns @ [fresh q]"])
qed

lemma wf_prepend_tpl: "wf_queue q \<Longrightarrow> wf_queue (prepend_tpl b v q)"
  by (auto simp: wf_iff intro: prepend_tpl_wf_nodes(1))

lemma items_prepend_tpl:
  assumes "wf_queue q"
  shows "items (prepend_tpl b v q) = v # items q"
proof -
  from assms obtain ns where ns: "wf_nodes q ns" unfolding wf_iff ..
  show ?thesis
    using prepend_tpl_wf_nodes[OF ns, of b v]
    by (simp add: wf_nodes_items[OF ns] wf_nodes_items[of "prepend_tpl b v q" "hd ns # fresh q # tl ns"])
qed

lemma empty_iff_items: "wf_queue q \<Longrightarrow> empty_q q \<longleftrightarrow> items q = []"
  unfolding wf_iff using wf_nodes_empty wf_nodes_items_Nil by blast

lemma head_next_iff_items:
  assumes "wf_queue q"
  shows "node_next (heap q (head_ptr q)) = nullptr \<longleftrightarrow> items q = []"
proof -
  from assms obtain ns where ns: "wf_nodes q ns" unfolding wf_iff ..
  have "hd (tl ns) \<noteq> nullptr" if "tl ns \<noteq> []"
  proof -
    have "hd (tl ns) \<in> set ns" using that by (metis hd_in_set list.set_sel(2) tl_Nil)
    with wf_nodesD(12)[OF ns] show ?thesis by metis
  qed
  then show ?thesis
    unfolding wf_nodes_items_Nil[OF ns] wf_nodes_head_next[OF ns] by auto
qed

lemma wf_head_not_fresh:
  assumes "wf_queue q"
  shows "head_ptr q \<noteq> fresh q"
proof -
  from assms obtain ns where ns: "wf_nodes q ns" unfolding wf_iff ..
  have "head_ptr q \<in> set ns" using wf_nodesD(2,9)[OF ns] by (metis hd_in_set)
  with wf_nodesD(10)[OF ns] show ?thesis by metis
qed

lemma try_take_head_Nil:
  "wf_queue q \<Longrightarrow> items q = [] \<Longrightarrow> try_take_head q = (None, q)"
  using head_next_iff_items try_take_head_empty by blast

lemma try_take_head_Cons:
  assumes "wf_queue q" "items q = x # xs"
  shows "fst (try_take_head q) = Some x" "wf_queue (snd (try_take_head q))"
    "items (snd (try_take_head q)) = xs"
proof -
  from assms obtain ns where ns: "wf_nodes q ns" unfolding wf_iff by blast
  have ne: "tl ns \<noteq> []" using wf_nodes_items_Nil[OF ns] assms(2) by auto
  note T = try_take_head_wf_nodes[OF ns ne]
  show "wf_queue (snd (try_take_head q))" using T(1) by (rule wfI)
  from T(2) have "x # xs = the (fst (try_take_head q)) # items (snd (try_take_head q))"
    using assms(2) by (simp add: wf_nodes_items[OF ns] wf_nodes_items[OF T(1)])
  with T(3) show "fst (try_take_head q) = Some x" "items (snd (try_take_head q)) = xs"
    by auto
qed

lemma try_take_tail_Nil:
  "wf_queue q \<Longrightarrow> items q = [] \<Longrightarrow> try_take_tail q = (None, q)"
  using empty_iff_items try_take_tail_empty unfolding empty_q_def by metis

lemma try_take_tail_snoc:
  assumes "wf_queue q" "items q = xs @ [x]"
  shows "fst (try_take_tail q) = Some x" "wf_queue (snd (try_take_tail q))"
    "items (snd (try_take_tail q)) = xs"
proof -
  from assms obtain ns where ns: "wf_nodes q ns" unfolding wf_iff by blast
  have ne: "tl ns \<noteq> []" using wf_nodes_items_Nil[OF ns] assms(2) by auto
  note T = try_take_tail_wf_nodes[OF ns ne]
  show "wf_queue (snd (try_take_tail q))" using T(1) by (rule wfI)
  from T(2) have "xs @ [x] = items (snd (try_take_tail q)) @ [the (fst (try_take_tail q))]"
    using assms(2) by (simp add: wf_nodes_items[OF ns] wf_nodes_items[OF T(1)])
  with T(3) show "fst (try_take_tail q) = Some x" "items (snd (try_take_tail q)) = xs"
    by auto
qed

lemma wf_try_take_head: "wf_queue q \<Longrightarrow> wf_queue (snd (try_take_head q))"
  by (cases "items q") (simp_all add: try_take_head_Nil try_take_head_Cons)

lemma wf_try_take_tail: "wf_queue q \<Longrightarrow> wf_queue (snd (try_take_tail q))"
  by (cases "items q" rule: rev_cases) (simp_all add: try_take_tail_Nil try_take_tail_snoc)

lemma items_cv_notified_update [simp]: "items (q\<lparr>cv_notified := n\<rparr>) = items q"
  by (simp add: items_def nodes_def)

subsection \<open>Histories of calls\<close>

lemma wf_step: "wf_queue (fst s) \<Longrightarrow> wf_queue (fst (step s c))"
  by (cases s; cases c)
    (simp_all add: append_q_def prepend_q_def wf_append_tpl wf_prepend_tpl
      wf_try_take_head wf_try_take_tail)

lemma wf_foldl_step: "wf_queue (fst s) \<Longrightarrow> wf_queue (fst (foldl step s cs))"
  by (induction cs arbitrary: s) (simp_all add: wf_step)

lemma wf_run: "wf_queue q \<Longrightarrow> wf_queue (fst (run cs q))"
  using wf_foldl_step[of "(q, [])" cs] by (simp add: run_def)

lemma wf_run_ctor: "wf_queue (fst (run cs thread_safe_queue_ctor))"
  using wf_ctor by (rule wf_run)

lemma returned_append [simp]: "returned (rs @ ts) = returned rs @ returned ts"
  by (induction rs rule: returned.induct) simp_all

lemma foldl_step_log:
  "foldl step (q, out) cs = (fst (foldl step (q, []) cs), out @ snd (foldl step (q, []) cs))"
proof (induction cs arbitrary: q out)
  case Nil
  then show ?case by simp
next
  case (Cons c cs)
  obtain q' r where st: "step (q, []) c = (q', r)" by (cases "step (q, []) c")
  then have st': "step (q, out) c = (q', out @ r)" by (cases c) auto
  show ?case
    using Cons.IH[of q' "out @ r"] Cons.IH[of q' r] by (simp add: st st')
qed

lemma inserted_Cons: "mset (inserted (c # cs)) = mset (inserted [c]) + mset (inserted cs)"
  by (cases c) simp_all

lemma appended_Cons: "appended (c # cs) = appended [c] @ appended cs"
  by (cases c) simp_all

lemma prepended_Cons: "prepended (c # cs) = prepended [c] @ prepended cs"
  by (cases c) simp_all

lemma step_mset:
  assumes "wf_queue (fst s)"
  shows "mset (returned (snd (step s c))) + mset (items (fst (step s c))) =
         mset (returned (snd s)) + mset (items (fst s)) + mset (inserted [c])"
proof -
  obtain q out where s: "s = (q, out)" by (cases s)
  with assms have w: "wf_queue q" by simp
  show ?thesis
  proof (cases c)
    case (Append v)
    then show ?thesis using w by (simp add: s append_q_def items_append_tpl)
  next
    case (Prepend v)
    then show ?thesis using w by (simp add: s prepend_q_def items_prepend_tpl)
  next
    case Take_head
    show ?thesis
    proof (cases "items q")
      case Nil
      then show ?thesis using w Take_head by (simp add: s try_take_head_Nil)
    next
      case (Cons x xs)
      then show ?thesis using w Take_head by (simp add: s try_take_head_Cons)
    qed
  next
    case Take_tail
    show ?thesis
    proof (cases "items q" rule: rev_cases)
      case Nil
      then show ?thesis using w Take_tail by (simp add: s try_take_tail_Nil)
    next
      case (snoc xs x)
      then show ?thesis using w Take_tail by (simp add: s try_take_tail_snoc)
    qed
  qed
qed

lemma foldl_step_mset:
  "wf_queue (fst s) \<Longrightarrow>
   mset (returned (snd (foldl step s cs))) + mset (items (fst (foldl step s cs))) =
   mset (returned (snd s)) + mset (items (fst s)) + mset (inserted cs)"
proof (induction cs arbitrary: s)
  case Nil
  then show ?case by simp
next
  case (Cons c cs)
  have "wf_queue (fst (step s c))" using Cons.prems by (rule wf_step)
  from Cons.IH[OF this] step_mset[OF Cons.prems, of c] show ?case
    by (simp add: inserted_Cons[of c cs] add.assoc)
qed

lemma step_dequeue_order:
  assumes "wf_queue (fst s)" "c \<noteq> Take_tail"
  shows "dequeue_order (step s c) = returned (snd s) @ prepended [c] @ items (fst s) @ appended [c]"
proof -
  obtain q out where s: "s = (q, out)" by (cases s)
  with assms have w: "wf_queue q" by simp
  show ?thesis
  proof (cases c)
    case (Append v)
    then show ?thesis using w by (simp add: s dequeue_order_def append_q_def items_append_tpl)
  next
    case (Prepend v)
    then show ?thesis using w by (simp add: s dequeue_order_def prepend_q_def items_prepend_tpl)
  next
    case Take_head
    show ?thesis
    proof (cases "items q")
      case Nil
      then show ?thesis using w Take_head by (simp add: s dequeue_order_def try_take_head_Nil)
    next
      case (Cons x xs)
      then show ?thesis using w Take_head by (simp add: s dequeue_order_def try_take_head_Cons)
    qed
  next
    case Take_tail
    with assms show ?thesis by simp
  qed
qed

lemma step_subseq:
  assumes "wf_queue (fst s)" "c \<noteq> Take_tail"
  shows "subseq (dequeue_order s) (dequeue_order (step s c))"
proof -
  have "subseq (items (fst s)) (prepended [c] @ items (fst s) @ appended [c])"
    by (intro list_emb_append2 list_emb_prefix) simp
  then have "subseq (returned (snd s) @ items (fst s))
       (returned (snd s) @ prepended [c] @ items (fst s) @ appended [c])"
    by (intro list_emb_append_mono) simp_all
  then show ?thesis
    unfolding step_dequeue_order[OF assms] by (simp add: dequeue_order_def)
qed

lemma foldl_step_subseq:
  "wf_queue (fst s) \<Longrightarrow> Take_tail \<notin> set cs \<Longrightarrow>
   subseq (dequeue_order s) (dequeue_order (foldl step s cs))"
proof (induction cs arbitrary: s)
  case Nil
  then show ?case by simp
next
  case (Cons c cs)
  have c: "c \<noteq> Take_tail" and cs: "Take_tail \<notin> set cs" using Cons.prems(2) by auto
  have "subseq (dequeue_order s) (dequeue_order (step s c))"
    using Cons.prems(1) c by (rule step_subseq)
  moreover have "subseq (dequeue_order (step s c)) (dequeue_order (foldl step (step s c) cs))"
    using wf_step[OF Cons.prems(1)] cs by (rule Cons.IH)
  ultimately show ?case by (simp add: subseq_order.order_trans)
qed

lemma run_subseq:
  "wf_queue q \<Longrightarrow> Take_tail \<notin> set cs \<Longrightarrow> subseq (items q) (dequeue_order (run cs q))"
  using foldl_step_subseq[of "(q, [])" cs] by (simp add: run_def dequeue_order_def)

lemma foldl_step_filter:
  "wf_queue (fst s) \<Longrightarrow> Take_tail \<notin> set cs \<Longrightarrow> list_all (\<lambda>v. \<not> P v) (prepended cs) \<Longrightarrow>
   filter P (dequeue_order (foldl step s cs)) = filter P (dequeue_order s) @ filter P (appended cs)"
proof (induction cs arbitrary: s)
  case Nil
  then show ?case by simp
next
  case (Cons c cs)
  have c: "c \<noteq> Take_tail" and cs: "Take_tail \<notin> set cs" using Cons.prems(2) by auto
  have pc: "list_all (\<lambda>v. \<not> P v) (prepended [c])" and pcs: "list_all (\<lambda>v. \<not> P v) (prepended cs)"
    using Cons.prems(3) prepended_Cons[of c cs] by simp_all
  have "filter P (prepended [c]) = []" using pc by (auto simp: list_all_iff filter_empty_conv)
  then have "filter P (dequeue_order (step s c)) = filter P (dequeue_order s) @ filter P (appended [c])"
    unfolding step_dequeue_order[OF Cons.prems(1) c] by (simp add: dequeue_order_def)
  with Cons.IH[OF wf_step[OF Cons.prems(1)] cs pcs, of c] show ?case
    by (simp add: appended_Cons[of c cs])
qed

lemma step_priority:
  assumes "wf_queue (fst s)" "c \<noteq> Take_tail" "list_all (\<lambda>v. \<not> P v) (prepended [c])"
    "list_all P (appended [c])" "sorted_wrt (\<lambda>x y. P x \<longrightarrow> P y) (items (fst s))"
  shows "sorted_wrt (\<lambda>x y. P x \<longrightarrow> P y) (items (fst (step s c)))"
proof -
  obtain q out where s: "s = (q, out)" by (cases s)
  with assms have w: "wf_queue q" and so: "sorted_wrt (\<lambda>x y. P x \<longrightarrow> P y) (items q)" by simp_all
  show ?thesis
  proof (cases c)
    case (Append v)
    then show ?thesis using w so assms(4)
      by (simp add: s append_q_def items_append_tpl sorted_wrt_append)
  next
    case (Prepend v)
    then show ?thesis using w so assms(3)
      by (simp add: s prepend_q_def items_prepend_tpl)
  next
    case Take_head
    show ?thesis
    proof (cases "items q")
      case Nil
      then show ?thesis using w Take_head by (simp add: s try_take_head_Nil)
    next
      case (Cons x xs)
      then show ?thesis using w so Take_head by (simp add: s try_take_head_Cons)
    qed
  next
    case Take_tail
    with assms show ?thesis by simp
  qed
qed

lemma foldl_step_priority:
  "wf_queue (fst s) \<Longrightarrow> Take_tail \<notin> set cs \<Longrightarrow> list_all (\<lambda>v. \<not> P v) (prepended cs) \<Longrightarrow>
   list_all P (appended cs) \<Longrightarrow> sorted_wrt (\<lambda>x y. P x \<longrightarrow> P y) (items (fst s)) \<Longrightarrow>
   sorted_wrt (\<lambda>x y. P x \<longrightarrow> P y) (items (fst (foldl step s cs)))"
proof (induction cs arbitrary: s)
  case Nil
  then show ?case by simp
next
  case (Cons c cs)
  have c: "c \<noteq> Take_tail" and cs: "Take_tail \<notin> set cs" using Cons.prems(2) by auto
  have pc: "list_all (\<lambda>v. \<not> P v) (prepended [c])" and pcs: "list_all (\<lambda>v. \<not> P v) (prepended cs)"
    using Cons.prems(3) prepended_Cons[of c cs] by simp_all
  have ac: "list_all P (appended [c])" and acs: "list_all P (appended cs)"
    using Cons.prems(4) appended_Cons[of c cs] by simp_all
  have "sorted_wrt (\<lambda>x y. P x \<longrightarrow> P y) (items (fst (step s c)))"
    using Cons.prems(1) c pc ac Cons.prems(5) by (rule step_priority)
  with Cons.IH[OF wf_step[OF Cons.prems(1)] cs pcs acs, of c] show ?case by simp
qed

subsection \<open>The shape of a reachable queue\<close>

lemma items_try_take_head: "wf_queue q \<Longrightarrow> items (snd (try_take_head q)) = tl (items q)"
  by (cases "items q") (simp_all add: try_take_head_Nil try_take_head_Cons)

lemma fst_try_take_head:
  "wf_queue q \<Longrightarrow> fst (try_take_head q) = (if items q = [] then None else Some (hd (items q)))"
  by (cases "items q") (simp_all add: try_take_head_Nil try_take_head_Cons)

lemma items_try_take_tail: "wf_queue q \<Longrightarrow> items (snd (try_take_tail q)) = butlast (items q)"
  by (cases "items q" rule: rev_cases) (simp_all add: try_take_tail_Nil try_take_tail_snoc)

lemma fst_try_take_tail:
  "wf_queue q \<Longrightarrow> fst (try_take_tail q) = (if items q = [] then None else Some (last (items q)))"
  by (cases "items q" rule: rev_cases) (simp_all add: try_take_tail_Nil try_take_tail_snoc)

lemma appended_append: "appended (cs @ ds) = appended cs @ appended ds"
  by (induction cs rule: appended.induct) simp_all

lemma prepended_append: "prepended (cs @ ds) = prepended cs @ prepended ds"
  by (induction cs rule: prepended.induct) simp_all

lemma run_snoc: "run (cs @ [c]) q = step (run cs q) c"
  by (simp add: run_def)

lemma subseq_tl: "subseq xs ys \<Longrightarrow> subseq (tl xs) ys"
  by (cases xs) (auto dest: subseq_Cons')

lemma subseq_butlast: "subseq xs ys \<Longrightarrow> subseq (butlast xs) ys"
proof (cases xs rule: rev_cases)
  case Nil
  then show ?thesis by simp
next
  case (snoc zs z)
  assume "subseq xs ys"
  moreover have "subseq zs (zs @ [z])" by (rule list_emb_prefix) simp
  ultimately show ?thesis using snoc by (simp add: subseq_order.order_trans)
qed

text \<open>
  The shape of a queue after any history of calls on an empty queue: some of the
  prepended items, the one prepended last first, then some of the appended items, the
  one appended first first.
\<close>

lemma queue_shape:
  assumes "wf_queue q" "items q = []"
  shows "\<exists>ps as. subseq ps (prepended cs) \<and> subseq as (appended cs) \<and>
           items (fst (run cs q)) = rev ps @ as"
proof (induction cs rule: rev_induct)
  case Nil
  show ?case using assms(2) by (simp add: run_def)
next
  case (snoc c cs)
  then obtain ps as where ps: "subseq ps (prepended cs)" and as: "subseq as (appended cs)"
    and it: "items (fst (run cs q)) = rev ps @ as" by blast
  obtain q' out where s: "run cs q = (q', out)" by (cases "run cs q")
  have w: "wf_queue q'" using wf_run[OF assms(1), of cs] s by simp
  have it': "items q' = rev ps @ as" using it s by simp
  have pc: "prepended (cs @ [c]) = prepended cs @ prepended [c]"
    and ac: "appended (cs @ [c]) = appended cs @ appended [c]"
    by (simp_all add: appended_append prepended_append)
  have keep_ps: "subseq xs (prepended cs) \<Longrightarrow> subseq xs (prepended (cs @ [c]))" for xs
    unfolding pc by (rule list_emb_prefix)
  have keep_as: "subseq xs (appended cs) \<Longrightarrow> subseq xs (appended (cs @ [c]))" for xs
    unfolding ac by (rule list_emb_prefix)
  show ?case
  proof (cases c)
    case (Append v)
    have "subseq (as @ [v]) (appended (cs @ [c]))"
      unfolding ac using as Append by (intro list_emb_append_mono) simp_all
    moreover have "items (fst (run (cs @ [c]) q)) = rev ps @ (as @ [v])"
      using w it' Append by (simp add: run_snoc s append_q_def items_append_tpl)
    ultimately show ?thesis using keep_ps[OF ps] by blast
  next
    case (Prepend v)
    have "subseq (ps @ [v]) (prepended (cs @ [c]))"
      unfolding pc using ps Prepend by (intro list_emb_append_mono) simp_all
    moreover have "items (fst (run (cs @ [c]) q)) = rev (ps @ [v]) @ as"
      using w it' Prepend by (simp add: run_snoc s prepend_q_def items_prepend_tpl)
    ultimately show ?thesis using keep_as[OF as] by blast
  next
    case Take_head
    have t: "items (fst (run (cs @ [c]) q)) = tl (rev ps @ as)"
      using w it' Take_head by (simp add: run_snoc s items_try_take_head)
    show ?thesis
    proof (cases "ps = []")
      case True
      then have "items (fst (run (cs @ [c]) q)) = rev ps @ tl as" using t by simp
      moreover have "subseq (tl as) (appended (cs @ [c]))"
        using as by (intro keep_as subseq_tl)
      ultimately show ?thesis using keep_ps[OF ps] by blast
    next
      case False
      then have "tl (rev ps @ as) = rev (butlast ps) @ as"
        by (cases ps rule: rev_cases) simp_all
      then have "items (fst (run (cs @ [c]) q)) = rev (butlast ps) @ as" using t by simp
      moreover have "subseq (butlast ps) (prepended (cs @ [c]))"
        using ps by (intro keep_ps subseq_butlast)
      ultimately show ?thesis using keep_as[OF as] by blast
    qed
  next
    case Take_tail
    have t: "items (fst (run (cs @ [c]) q)) = butlast (rev ps @ as)"
      using w it' Take_tail by (simp add: run_snoc s items_try_take_tail)
    show ?thesis
    proof (cases "as = []")
      case True
      then have "butlast (rev ps @ as) = rev (tl ps) @ as"
        by (cases ps) simp_all
      then have "items (fst (run (cs @ [c]) q)) = rev (tl ps) @ as" using t by simp
      moreover have "subseq (tl ps) (prepended (cs @ [c]))"
        using ps by (intro keep_ps subseq_tl)
      ultimately show ?thesis using keep_as[OF as] by blast
    next
      case False
      then have "butlast (rev ps @ as) = rev ps @ butlast as"
        by (simp add: butlast_append)
      then have "items (fst (run (cs @ [c]) q)) = rev ps @ butlast as" using t by simp
      moreover have "subseq (butlast as) (appended (cs @ [c]))"
        using as by (intro keep_as subseq_butlast)
      ultimately show ?thesis using keep_ps[OF ps] by blast
    qed
  qed
qed

lemma queue_shape_ctor:
  "\<exists>ps as. subseq ps (prepended cs) \<and> subseq as (appended cs) \<and>
     items (fst (run cs thread_safe_queue_ctor)) = rev ps @ as"
  using wf_ctor items_ctor by (rule queue_shape)

lemma head_of_shape:
  "wf_queue q \<Longrightarrow> items q = rev ps @ as \<Longrightarrow>
   fst (try_take_head q) =
     (if ps \<noteq> [] then Some (last ps) else if as \<noteq> [] then Some (hd as) else None)"
  by (simp add: fst_try_take_head hd_append hd_rev)

lemma tail_of_shape:
  "wf_queue q \<Longrightarrow> items q = rev ps @ as \<Longrightarrow>
   fst (try_take_tail q) =
     (if as \<noteq> [] then Some (last as) else if ps \<noteq> [] then Some (hd ps) else None)"
  by (simp add: fst_try_take_tail last_rev)

text \<open>The definitions a concrete history is evaluated with.\<close>

lemmas queue_ev = wf_queue_def wf_nodes_def nodes_def items_def values_of_def List.map_filter_def
  thread_safe_queue_ctor_def raw_memory_def new_node_def mk_node_def
  append_q_def prepend_q_def append_tpl_def prepend_tpl_def
  try_take_head_def try_take_head_impl_def try_take_tail_def empty_q_def
  set_next_def set_prev_def set_value_def delete_node_def notify_one_def run_def
  dequeue_order_def Let_def

section \<open>Properties of the mailbox queue\<close>

text \<open>
  C1: \<open>try_take_head(timeout)\<close> on an empty queue that nobody inserts into should
  return no value only after the timeout has elapsed. The code does not: its wait
  predicate \<open>ptr == nullptr\<close> holds on an empty queue from the start, so
  \<open>cv_.wait_for\<close> returns at once and the call comes back with \<open>nullptr\<close> without
  having been blocked at all. With rel_time 5 on a new queue the blocked time stays 0;
  on a queue with one item the same call is blocked for the whole 5 before it hands
  the item out.
\<close>

theorem timed_take_on_empty_returns_at_once:
  "try_take_head_for 5 (thread_safe_queue_ctor :: nat thread_safe_queue) =
     (None, thread_safe_queue_ctor) \<and>
   cv_blocked (snd (try_take_head_for 5 (thread_safe_queue_ctor :: nat thread_safe_queue))) = 0 \<and>
   fst (try_take_head_for 5 (append_q (1::nat) thread_safe_queue_ctor)) = Some 1 \<and>
   cv_blocked (snd (try_take_head_for 5 (append_q (1::nat) thread_safe_queue_ctor))) = 5"
  by (simp add: try_take_head_for_def try_take_head_impl_def wait_for_def
      thread_safe_queue_ctor_def raw_memory_def new_node_def mk_node_def append_q_def
      append_tpl_def set_next_def set_prev_def set_value_def delete_node_def notify_one_def Let_def)

text \<open>
  C3, as the code has it: for every history of \<open>append\<close>, \<open>prepend\<close> and
  \<open>try_take_head\<close> calls on a well-formed queue, \<open>try_take_head\<close> hands out the item
  at the head of the queue and leaves the rest. \<open>append\<close> puts an item behind every
  item in the queue and \<open>prepend\<close> puts one in front of every item in the queue, so a
  take right after a \<open>prepend\<close> hands out the prepended item; whatever calls follow,
  the items leave in that order (\<open>subseq\<close>). For any class \<open>P\<close> of items that no
  prepended item belongs to, the \<open>P\<close> items leave in the order they were in the queue
  and were appended afterwards: first in, first out among appended items. When the
  appended items are the \<open>P\<close> items and the prepended ones are not, no \<open>P\<close> item is
  ever queued ahead of a prepended one: control before regular. After any such
  history on a new queue the queue holds prepended items \<open>ps\<close>, the one prepended
  last first, and behind them appended items \<open>as\<close>, the one appended first first;
  the take hands out the item prepended last among those queued, and the oldest
  remaining item, the one appended first among those queued, when no prepended item
  is queued.
\<close>

theorem take_head_order:
  assumes "wf_queue q" and "Take_tail \<notin> set cs"
  shows "fst (try_take_head q) = (case items q of [] \<Rightarrow> None | x # xs \<Rightarrow> Some x) \<and>
         items (snd (try_take_head q)) = tl (items q) \<and>
         items (append_q v q) = items q @ [v] \<and>
         items (prepend_q v q) = v # items q \<and>
         fst (try_take_head (prepend_q v q)) = Some v \<and>
         subseq (items q @ [v]) (dequeue_order (run cs (append_q v q))) \<and>
         subseq (v # items q) (dequeue_order (run cs (prepend_q v q))) \<and>
         ((\<forall>v\<in>set (prepended cs). \<not> P v) \<longrightarrow>
            filter P (dequeue_order (run cs q)) = filter P (items q @ appended cs)) \<and>
         ((\<forall>v\<in>set (prepended cs). \<not> P v) \<and> (\<forall>v\<in>set (appended cs). P v) \<and>
          sorted_wrt (\<lambda>x y. P x \<longrightarrow> P y) (items q) \<longrightarrow>
            sorted_wrt (\<lambda>x y. P x \<longrightarrow> P y) (items (fst (run cs q)))) \<and>
         (\<exists>ps as. subseq ps (prepended cs) \<and> subseq as (appended cs) \<and>
            items (fst (run cs thread_safe_queue_ctor)) = rev ps @ as \<and>
            fst (try_take_head (fst (run cs (thread_safe_queue_ctor :: 'a thread_safe_queue)))) =
              (if ps \<noteq> [] then Some (last ps) else if as \<noteq> [] then Some (hd as) else None))"
proof (intro conjI impI)
  have wa: "wf_queue (append_q v q)" and wp: "wf_queue (prepend_q v q)"
    using assms(1) by (simp_all add: append_q_def prepend_q_def wf_append_tpl wf_prepend_tpl)
  show "fst (try_take_head q) = (case items q of [] \<Rightarrow> None | x # xs \<Rightarrow> Some x)"
    using assms(1) by (cases "items q") (simp_all add: try_take_head_Nil try_take_head_Cons)
  show "items (snd (try_take_head q)) = tl (items q)"
    using assms(1) by (rule items_try_take_head)
  show ia: "items (append_q v q) = items q @ [v]"
    using assms(1) by (simp add: append_q_def items_append_tpl)
  show ip: "items (prepend_q v q) = v # items q"
    using assms(1) by (simp add: prepend_q_def items_prepend_tpl)
  show "fst (try_take_head (prepend_q v q)) = Some v"
    using wp ip by (rule try_take_head_Cons(1))
  show "subseq (items q @ [v]) (dequeue_order (run cs (append_q v q)))"
    using run_subseq[OF wa assms(2)] by (simp add: ia)
  show "subseq (v # items q) (dequeue_order (run cs (prepend_q v q)))"
    using run_subseq[OF wp assms(2)] by (simp add: ip)
  show "filter P (dequeue_order (run cs q)) = filter P (items q @ appended cs)"
    if "\<forall>v\<in>set (prepended cs). \<not> P v"
    using foldl_step_filter[of "(q, [])" cs P] assms that
    by (simp add: run_def dequeue_order_def list_all_iff)
  show "sorted_wrt (\<lambda>x y. P x \<longrightarrow> P y) (items (fst (run cs q)))"
    if "(\<forall>v\<in>set (prepended cs). \<not> P v) \<and> (\<forall>v\<in>set (appended cs). P v) \<and>
          sorted_wrt (\<lambda>x y. P x \<longrightarrow> P y) (items q)"
    using foldl_step_priority[of "(q, [])" cs P] assms that
    by (simp add: run_def list_all_iff)
  from queue_shape_ctor[of cs] obtain ps as where
    sh: "subseq ps (prepended cs)" "subseq as (appended cs)"
      "items (fst (run cs (thread_safe_queue_ctor :: 'a thread_safe_queue))) = rev ps @ as"
    by blast
  from head_of_shape[OF wf_run_ctor sh(3)] sh
  show "\<exists>ps as. subseq ps (prepended cs) \<and> subseq as (appended cs) \<and>
            items (fst (run cs thread_safe_queue_ctor)) = rev ps @ as \<and>
            fst (try_take_head (fst (run cs (thread_safe_queue_ctor :: 'a thread_safe_queue)))) =
              (if ps \<noteq> [] then Some (last ps) else if as \<noteq> [] then Some (hd as) else None)"
    by blast
qed

theorem take_head_order_witness:
  "wf_queue (thread_safe_queue_ctor :: nat thread_safe_queue) \<and>
   Take_tail \<notin> set [Append (1::nat), Append 2, Prepend 10, Prepend 11, Take_head, Append 3, Take_head, Take_head] \<and>
   list_all (\<lambda>v. \<not> v < 10) (prepended [Append (1::nat), Append 2, Prepend 10, Prepend 11, Take_head, Append 3, Take_head, Take_head]) \<and>
   list_all (\<lambda>v. v < 10) (appended [Append (1::nat), Append 2, Prepend 10, Prepend 11, Take_head, Append 3, Take_head, Take_head]) \<and>
   dequeue_order (run [Append (1::nat), Append 2, Prepend 10, Prepend 11, Take_head, Append 3, Take_head, Take_head]
      thread_safe_queue_ctor) = [11, 10, 1, 2, 3] \<and>
   filter (\<lambda>v. v < 10) (dequeue_order (run [Append (1::nat), Append 2, Prepend 10, Prepend 11, Take_head, Append 3, Take_head, Take_head]
      thread_safe_queue_ctor)) = [1, 2, 3] \<and>
   sorted_wrt (\<lambda>x y. x < 10 \<longrightarrow> y < 10)
     (items (fst (run [Append (1::nat), Append 2, Prepend 10, Prepend 11, Take_head, Append 3, Take_head, Take_head]
      thread_safe_queue_ctor))) \<and>
   subseq [7] (dequeue_order (run [Append (1::nat), Append 2, Prepend 10, Prepend 11, Take_head, Append 3, Take_head, Take_head]
      (prepend_q 7 thread_safe_queue_ctor))) \<and>
   fst (try_take_head (thread_safe_queue_ctor :: nat thread_safe_queue)) = None \<and>
   fst (try_take_head (prepend_q (7::nat) thread_safe_queue_ctor)) = Some 7 \<and>
   items (fst (run [Append (5::nat), Prepend 6, Prepend 7] thread_safe_queue_ctor)) = rev [6, 7] @ [5] \<and>
   fst (try_take_head (fst (run [Append (5::nat), Prepend 6, Prepend 7] thread_safe_queue_ctor))) = Some 7 \<and>
   fst (try_take_head (fst (run [Append (5::nat), Append 6, Prepend 7, Take_head] thread_safe_queue_ctor))) = Some 5"
proof -
  let ?cs = "[Append (1::nat), Append 2, Prepend 10, Prepend 11, Take_head, Append 3, Take_head, Take_head]"
  have w: "wf_queue (thread_safe_queue_ctor :: nat thread_safe_queue)" by (simp add: queue_ev)
  have n: "Take_tail \<notin> set ?cs" by simp
  have i: "items (thread_safe_queue_ctor :: nat thread_safe_queue) = []" by (simp add: queue_ev)
  have p: "\<forall>v\<in>set (prepended ?cs). \<not> v < 10" by simp
  have a: "\<forall>v\<in>set (appended ?cs). v < 10" by simp
  have d: "dequeue_order (run ?cs thread_safe_queue_ctor) = [11, 10, 1, 2, 3]" by (simp add: queue_ev)
  have e1: "items (fst (run [Append (5::nat), Prepend 6, Prepend 7] thread_safe_queue_ctor)) = rev [6, 7] @ [5]"
    by (simp add: queue_ev)
  have e2: "fst (try_take_head (fst (run [Append (5::nat), Prepend 6, Prepend 7] thread_safe_queue_ctor))) = Some 7"
    by (simp add: queue_ev)
  have e3: "fst (try_take_head (fst (run [Append (5::nat), Append 6, Prepend 7, Take_head] thread_safe_queue_ctor))) = Some 5"
    by (simp add: queue_ev)
  note T = take_head_order[OF w n, where v = 7 and P = "\<lambda>v. v < 10"]
  from T p have "filter (\<lambda>v. v < 10) (dequeue_order (run ?cs thread_safe_queue_ctor)) = [1, 2, 3]"
    by (simp add: i)
  moreover from T p a have "sorted_wrt (\<lambda>x y. x < 10 \<longrightarrow> y < 10) (items (fst (run ?cs thread_safe_queue_ctor)))"
    by (simp add: i)
  moreover from T have "subseq [7] (dequeue_order (run ?cs (prepend_q 7 thread_safe_queue_ctor)))"
    by (simp add: i)
  moreover from T have "fst (try_take_head (thread_safe_queue_ctor :: nat thread_safe_queue)) = None"
    by (simp add: i)
  moreover from T have "fst (try_take_head (prepend_q (7::nat) thread_safe_queue_ctor)) = Some 7"
    by blast
  ultimately show ?thesis using w d e1 e2 e3 by simp
qed

text \<open>
  C3 as stated fails: after \<open>prepend(1)\<close> and \<open>prepend(2)\<close> the oldest remaining item
  is 1, and \<open>try_take_head\<close> returns 2 and leaves 1 in the queue.
\<close>

theorem take_head_not_oldest:
  "fst (try_take_head (fst (run [Prepend (1::nat), Prepend 2] thread_safe_queue_ctor))) = Some 2 \<and>
   items (snd (try_take_head (fst (run [Prepend (1::nat), Prepend 2] thread_safe_queue_ctor)))) = [1] \<and>
   inserted [Prepend (1::nat), Prepend 2] = [1, 2]"
  by (simp add: queue_ev)

text \<open>
  C4: for every history of \<open>append\<close>, \<open>prepend\<close>, \<open>try_take_head\<close> and
  \<open>try_take_tail\<close> calls on a well-formed queue, the items the takes returned together
  with the items still queued are, as a multiset, the items queued at the start
  together with the items inserted: none is lost, none is duplicated.
\<close>

theorem no_item_lost_or_duplicated:
  "wf_queue q \<Longrightarrow>
   mset (returned (snd (run cs q))) + mset (items (fst (run cs q))) =
   mset (items q) + mset (inserted cs)"
  using foldl_step_mset[of "(q, [])" cs] by (simp add: run_def)

theorem no_item_lost_or_duplicated_witness:
  "wf_queue (thread_safe_queue_ctor :: nat thread_safe_queue) \<and>
   returned (snd (run [Append (1::nat), Prepend 2, Take_tail, Append 3, Take_head, Take_head, Take_head]
                   thread_safe_queue_ctor)) = [1, 2, 3] \<and>
   items (fst (run [Append (1::nat), Prepend 2, Take_tail, Append 3, Take_head, Take_head, Append 4]
                   thread_safe_queue_ctor)) = [4] \<and>
   mset (returned (snd (run [Append (1::nat), Prepend 2, Take_tail, Append 3, Take_head, Take_head, Append 4]
                   thread_safe_queue_ctor))) +
   mset (items (fst (run [Append (1::nat), Prepend 2, Take_tail, Append 3, Take_head, Take_head, Append 4]
                   thread_safe_queue_ctor))) = mset [1, 2, 3, 4]"
proof -
  have w: "wf_queue (thread_safe_queue_ctor :: nat thread_safe_queue)" by (simp add: queue_ev)
  have i: "items (thread_safe_queue_ctor :: nat thread_safe_queue) = []" by (simp add: queue_ev)
  have r: "returned (snd (run [Append (1::nat), Prepend 2, Take_tail, Append 3, Take_head, Take_head, Take_head]
                   thread_safe_queue_ctor)) = [1, 2, 3]" by (simp add: queue_ev)
  have j: "items (fst (run [Append (1::nat), Prepend 2, Take_tail, Append 3, Take_head, Take_head, Append 4]
                   thread_safe_queue_ctor)) = [4]" by (simp add: queue_ev)
  from no_item_lost_or_duplicated[OF w,
      of "[Append 1, Prepend 2, Take_tail, Append 3, Take_head, Take_head, Append 4]"]
  show ?thesis using w r j by (simp add: i)
qed

text \<open>
  C6, as the code has it: on a non-empty queue \<open>try_take_tail\<close> removes and returns
  the item at the tail of the queue, the last one \<open>try_take_head\<close> would reach, and
  leaves the other items and their order as they were. Right after an \<open>append\<close>, or
  a \<open>prepend\<close> to an empty queue, that is the item just inserted; right after a
  \<open>prepend\<close> to a non-empty queue it is the item that was at the tail before, and the
  prepended item stays at the head. After any history of calls on a new queue the
  queue holds prepended items \<open>ps\<close>, the one prepended last first, and behind them
  appended items \<open>as\<close>, the one appended first first; the take returns the item
  appended last among those queued, and the item prepended first among those queued
  when no appended item is queued.
\<close>

theorem take_tail_takes_last:
  assumes "wf_queue q"
  shows "(\<not> empty_q q \<longrightarrow>
            fst (try_take_tail q) = Some (last (items q)) \<and>
            items (snd (try_take_tail q)) = butlast (items q) \<and>
            wf_queue (snd (try_take_tail q)) \<and>
            fst (try_take_tail (prepend_q v q)) = Some (last (items q)) \<and>
            items (snd (try_take_tail (prepend_q v q))) = v # butlast (items q)) \<and>
         (empty_q q \<longrightarrow>
            fst (try_take_tail (prepend_q v q)) = Some v \<and>
            items (snd (try_take_tail (prepend_q v q))) = []) \<and>
         fst (try_take_tail (append_q v q)) = Some v \<and>
         items (snd (try_take_tail (append_q v q))) = items q \<and>
         (\<exists>ps as. subseq ps (prepended cs) \<and> subseq as (appended cs) \<and>
            items (fst (run cs thread_safe_queue_ctor)) = rev ps @ as \<and>
            fst (try_take_tail (fst (run cs (thread_safe_queue_ctor :: 'a thread_safe_queue)))) =
              (if as \<noteq> [] then Some (last as) else if ps \<noteq> [] then Some (hd ps) else None))"
proof -
  have wa: "wf_queue (append_q v q)" and ia: "items (append_q v q) = items q @ [v]"
    and wp: "wf_queue (prepend_q v q)" and ip: "items (prepend_q v q) = v # items q"
    using assms
    by (simp_all add: append_q_def prepend_q_def wf_append_tpl wf_prepend_tpl
        items_append_tpl items_prepend_tpl)
  have app: "fst (try_take_tail (append_q v q)) = Some v \<and>
         items (snd (try_take_tail (append_q v q))) = items q"
    using try_take_tail_snoc[OF wa ia] by simp
  have emp: "fst (try_take_tail (prepend_q v q)) = Some v \<and>
            items (snd (try_take_tail (prepend_q v q))) = []" if "empty_q q"
  proof -
    have "items (prepend_q v q) = [] @ [v]" using that assms ip empty_iff_items by auto
    from try_take_tail_snoc[OF wp this] show ?thesis by simp
  qed
  have non: "fst (try_take_tail q) = Some (last (items q)) \<and>
            items (snd (try_take_tail q)) = butlast (items q) \<and>
            wf_queue (snd (try_take_tail q)) \<and>
            fst (try_take_tail (prepend_q v q)) = Some (last (items q)) \<and>
            items (snd (try_take_tail (prepend_q v q))) = v # butlast (items q)" if "\<not> empty_q q"
  proof -
    have "items q \<noteq> []" using that assms empty_iff_items by blast
    then have sn: "items q = butlast (items q) @ [last (items q)]" by simp
    then have "items (prepend_q v q) = (v # butlast (items q)) @ [last (items q)]"
      using ip by simp
    from try_take_tail_snoc[OF assms sn] try_take_tail_snoc[OF wp this]
    show ?thesis by simp
  qed
  from queue_shape_ctor[of cs] obtain ps as where
    sh: "subseq ps (prepended cs)" "subseq as (appended cs)"
      "items (fst (run cs (thread_safe_queue_ctor :: 'a thread_safe_queue))) = rev ps @ as"
    by blast
  from tail_of_shape[OF wf_run_ctor sh(3)] sh
  have shape: "\<exists>ps as. subseq ps (prepended cs) \<and> subseq as (appended cs) \<and>
            items (fst (run cs thread_safe_queue_ctor)) = rev ps @ as \<and>
            fst (try_take_tail (fst (run cs (thread_safe_queue_ctor :: 'a thread_safe_queue)))) =
              (if as \<noteq> [] then Some (last as) else if ps \<noteq> [] then Some (hd ps) else None)"
    by blast
  show ?thesis using app emp non shape by blast
qed

theorem take_tail_takes_last_witness:
  "wf_queue (append_q (6::nat) (append_q 5 thread_safe_queue_ctor)) \<and>
   \<not> empty_q (append_q (6::nat) (append_q 5 thread_safe_queue_ctor)) \<and>
   items (append_q (6::nat) (append_q 5 thread_safe_queue_ctor)) = [5, 6] \<and>
   fst (try_take_tail (append_q (6::nat) (append_q 5 thread_safe_queue_ctor))) = Some 6 \<and>
   items (snd (try_take_tail (append_q (6::nat) (append_q 5 thread_safe_queue_ctor)))) = [5] \<and>
   fst (try_take_tail (prepend_q 7 (append_q (6::nat) (append_q 5 thread_safe_queue_ctor)))) = Some 6 \<and>
   items (snd (try_take_tail (prepend_q 7 (append_q (6::nat) (append_q 5 thread_safe_queue_ctor))))) = [7, 5] \<and>
   fst (try_take_tail (append_q 7 (append_q (6::nat) (append_q 5 thread_safe_queue_ctor)))) = Some 7 \<and>
   empty_q (thread_safe_queue_ctor :: nat thread_safe_queue) \<and>
   fst (try_take_tail (prepend_q (7::nat) thread_safe_queue_ctor)) = Some 7 \<and>
   items (fst (run [Append (5::nat), Prepend 6, Take_tail] thread_safe_queue_ctor)) = rev [6] @ [] \<and>
   fst (try_take_tail (fst (run [Append (5::nat), Prepend 6, Take_tail] thread_safe_queue_ctor))) = Some 6 \<and>
   items (fst (run [Prepend (5::nat), Append 6, Prepend 7, Append 8] thread_safe_queue_ctor)) = rev [5, 7] @ [6, 8] \<and>
   fst (try_take_tail (fst (run [Prepend (5::nat), Append 6, Prepend 7, Append 8] thread_safe_queue_ctor))) = Some 8 \<and>
   fst (try_take_tail (fst (run [Prepend (5::nat), Prepend 7] thread_safe_queue_ctor))) = Some 5"
proof -
  let ?q = "append_q (6::nat) (append_q 5 thread_safe_queue_ctor)"
  have w: "wf_queue ?q" by (auto simp: queue_ev)
  have e: "\<not> empty_q ?q" by (simp add: queue_ev)
  have i: "items ?q = [5, 6]" by (simp add: queue_ev)
  have w0: "wf_queue (thread_safe_queue_ctor :: nat thread_safe_queue)" by (simp add: queue_ev)
  have e0: "empty_q (thread_safe_queue_ctor :: nat thread_safe_queue)" by (simp add: queue_ev)
  have h: "items (fst (run [Append (5::nat), Prepend 6, Take_tail] thread_safe_queue_ctor)) = rev [6] @ []"
    "fst (try_take_tail (fst (run [Append (5::nat), Prepend 6, Take_tail] thread_safe_queue_ctor))) = Some 6"
    "items (fst (run [Prepend (5::nat), Append 6, Prepend 7, Append 8] thread_safe_queue_ctor)) = rev [5, 7] @ [6, 8]"
    "fst (try_take_tail (fst (run [Prepend (5::nat), Append 6, Prepend 7, Append 8] thread_safe_queue_ctor))) = Some 8"
    "fst (try_take_tail (fst (run [Prepend (5::nat), Prepend 7] thread_safe_queue_ctor))) = Some 5"
    by (simp_all add: queue_ev)
  note T = take_tail_takes_last[OF w, where v = 7 and cs = "[]"]
  note T0 = take_tail_takes_last[OF w0, where v = 7 and cs = "[]"]
  from T e have
    "fst (try_take_tail ?q) = Some (last (items ?q)) \<and>
     items (snd (try_take_tail ?q)) = butlast (items ?q) \<and>
     fst (try_take_tail (prepend_q 7 ?q)) = Some (last (items ?q)) \<and>
     items (snd (try_take_tail (prepend_q 7 ?q))) = 7 # butlast (items ?q) \<and>
     fst (try_take_tail (append_q 7 ?q)) = Some 7"
    by blast
  then have c:
    "fst (try_take_tail ?q) = Some 6"
    "items (snd (try_take_tail ?q)) = [5]"
    "fst (try_take_tail (prepend_q 7 ?q)) = Some 6"
    "items (snd (try_take_tail (prepend_q 7 ?q))) = [7, 5]"
    "fst (try_take_tail (append_q 7 ?q)) = Some 7"
    unfolding i by simp_all
  from T0 e0 have c0: "fst (try_take_tail (prepend_q (7::nat) thread_safe_queue_ctor)) = Some 7"
    by blast
  show ?thesis by (intro conjI) (fact w e i c c0 e0 h)+
qed

text \<open>
  C6 as stated fails: after \<open>append(1)\<close> and \<open>prepend(2)\<close> the most recently inserted
  item is 2, and \<open>try_take_tail\<close> returns 1.
\<close>

theorem take_tail_not_most_recent:
  "fst (try_take_tail (fst (run [Append (1::nat), Prepend 2] thread_safe_queue_ctor))) = Some 1 \<and>
   last_inserted [Append (1::nat), Prepend 2] = Some 2"
  by (simp add: queue_ev)

text \<open>
  C7: on a well-formed queue \<open>append\<close> and \<open>prepend\<close> call \<open>cv_.notify_one()\<close> once
  when the queue was empty before the call and not at all otherwise; the queue is
  empty exactly when it holds no item, and it is not empty after the call.
\<close>

theorem notify_iff_was_empty:
  assumes "wf_queue q"
  shows "cv_notified (append_q v q) = (if empty_q q then Suc (cv_notified q) else cv_notified q) \<and>
         cv_notified (prepend_q v q) = (if empty_q q then Suc (cv_notified q) else cv_notified q) \<and>
         (empty_q q \<longleftrightarrow> items q = []) \<and> \<not> empty_q (append_q v q) \<and> \<not> empty_q (prepend_q v q)"
proof (intro conjI)
  show "cv_notified (append_q v q) = (if empty_q q then Suc (cv_notified q) else cv_notified q)"
    by (auto simp: append_q_def append_tpl_notified empty_q_def)
  show "cv_notified (prepend_q v q) = (if empty_q q then Suc (cv_notified q) else cv_notified q)"
    using assms
    by (simp add: prepend_q_def prepend_tpl_notified wf_head_not_fresh
        head_next_iff_items empty_iff_items)
  show "empty_q q \<longleftrightarrow> items q = []" using assms by (rule empty_iff_items)
  show "\<not> empty_q (append_q v q)"
    using assms by (simp add: append_q_def empty_iff_items wf_append_tpl items_append_tpl)
  show "\<not> empty_q (prepend_q v q)"
    using assms by (simp add: prepend_q_def empty_iff_items wf_prepend_tpl items_prepend_tpl)
qed

theorem notify_iff_was_empty_witness:
  "wf_queue (thread_safe_queue_ctor :: nat thread_safe_queue) \<and>
   empty_q (thread_safe_queue_ctor :: nat thread_safe_queue) \<and>
   cv_notified (thread_safe_queue_ctor :: nat thread_safe_queue) = 0 \<and>
   cv_notified (append_q (1::nat) thread_safe_queue_ctor) = 1 \<and>
   cv_notified (prepend_q (1::nat) thread_safe_queue_ctor) = 1 \<and>
   wf_queue (append_q (1::nat) thread_safe_queue_ctor) \<and>
   \<not> empty_q (append_q (1::nat) thread_safe_queue_ctor) \<and>
   cv_notified (append_q 2 (append_q (1::nat) thread_safe_queue_ctor)) = 1 \<and>
   cv_notified (prepend_q 2 (append_q (1::nat) thread_safe_queue_ctor)) = 1"
proof -
  have w0: "wf_queue (thread_safe_queue_ctor :: nat thread_safe_queue)" by (simp add: queue_ev)
  have e0: "empty_q (thread_safe_queue_ctor :: nat thread_safe_queue)" by (simp add: queue_ev)
  have n0: "cv_notified (thread_safe_queue_ctor :: nat thread_safe_queue) = 0" by (simp add: queue_ev)
  have w1: "wf_queue (append_q (1::nat) thread_safe_queue_ctor)" by (auto simp: queue_ev)
  note A = notify_iff_was_empty[OF w0, of 1]
  note B = notify_iff_was_empty[OF w1, of 2]
  have n1: "cv_notified (append_q (1::nat) thread_safe_queue_ctor) = 1" using A e0 n0 by simp
  show ?thesis using A B w0 w1 e0 n0 n1 by simp
qed

text \<open>
  C9: \<open>internal_append\<close> and \<open>internal_prepend\<close> leave the queue in the state
  \<open>append\<close> and \<open>prepend\<close> leave it in, but for the count of notifications, which
  they do not change; the items and their order are the same.
\<close>

theorem internal_variants_same_state:
  "internal_append v q = (append_q v q)\<lparr>cv_notified := cv_notified q\<rparr> \<and>
   internal_prepend v q = (prepend_q v q)\<lparr>cv_notified := cv_notified q\<rparr> \<and>
   items (internal_append v q) = items (append_q v q) \<and>
   items (internal_prepend v q) = items (prepend_q v q) \<and>
   cv_notified (internal_append v q) = cv_notified q \<and>
   cv_notified (internal_prepend v q) = cv_notified q"
proof -
  have a: "internal_append v q = (append_q v q)\<lparr>cv_notified := cv_notified q\<rparr>"
    by (simp add: internal_append_def append_q_def append_tpl_def new_node_def set_next_def
        set_prev_def notify_one_def Let_def)
  have p: "internal_prepend v q = (prepend_q v q)\<lparr>cv_notified := cv_notified q\<rparr>"
    by (simp add: internal_prepend_def prepend_q_def prepend_tpl_def new_node_def set_next_def
        set_prev_def notify_one_def Let_def)
  show ?thesis by (simp add: a p)
qed

text \<open>
  C10: on an empty well-formed queue \<open>try_take_head()\<close> and \<open>try_take_tail()\<close>
  return \<open>nullptr\<close> and leave the queue exactly as it was. It is still empty, and a
  history that starts with the failed take goes on as the history without it.
\<close>

theorem take_on_empty_is_noop:
  assumes "wf_queue q" and "empty_q q"
  shows "try_take_head q = (None, q) \<and> try_take_tail q = (None, q) \<and>
         empty_q (snd (try_take_head q)) \<and> empty_q (snd (try_take_tail q)) \<and>
         run (Take_head # cs) q = (fst (run cs q), None # snd (run cs q)) \<and>
         run (Take_tail # cs) q = (fst (run cs q), None # snd (run cs q))"
proof -
  have i: "items q = []" using assms empty_iff_items by blast
  have h: "try_take_head q = (None, q)" using assms(1) i by (rule try_take_head_Nil)
  have t: "try_take_tail q = (None, q)" using assms(1) i by (rule try_take_tail_Nil)
  show ?thesis
    using assms(2) foldl_step_log[of q "[None]" cs] by (simp add: h t run_def)
qed

theorem take_on_empty_is_noop_witness:
  "wf_queue (thread_safe_queue_ctor :: nat thread_safe_queue) \<and>
   empty_q (thread_safe_queue_ctor :: nat thread_safe_queue) \<and>
   try_take_head (thread_safe_queue_ctor :: nat thread_safe_queue) = (None, thread_safe_queue_ctor) \<and>
   try_take_tail (thread_safe_queue_ctor :: nat thread_safe_queue) = (None, thread_safe_queue_ctor) \<and>
   snd (run [Take_head, Append (1::nat), Take_tail] thread_safe_queue_ctor) = [None, Some 1] \<and>
   snd (run [Take_tail, Append (1::nat), Take_head] thread_safe_queue_ctor) = [None, Some 1]"
proof -
  have w0: "wf_queue (thread_safe_queue_ctor :: nat thread_safe_queue)" by (simp add: queue_ev)
  have e0: "empty_q (thread_safe_queue_ctor :: nat thread_safe_queue)" by (simp add: queue_ev)
  have r1: "snd (run [Append (1::nat), Take_tail] thread_safe_queue_ctor) = [Some 1]" by (simp add: queue_ev)
  have r2: "snd (run [Append (1::nat), Take_head] thread_safe_queue_ctor) = [Some 1]" by (simp add: queue_ev)
  from take_on_empty_is_noop[OF w0 e0, of "[Append 1, Take_tail]"]
    take_on_empty_is_noop[OF w0 e0, of "[Append 1, Take_head]"]
  show ?thesis using w0 e0 r1 r2 by simp
qed

section \<open>Properties of the proxy registry and of publish/connect\<close>

lemma get_or_create_hit:
  "map_of (entries reg) a = Some p \<Longrightarrow> get_or_create a reg = (Inr p, reg)"
  by (simp add: get_or_create_def)

lemma get_or_create_miss:
  "map_of (entries reg) a = None \<Longrightarrow> fst a \<in> set (connections reg) \<Longrightarrow>
   get_or_create a reg =
     (Inr \<lparr>proxy_ref = next_ref reg, proxy_address = a\<rparr>,
      reg\<lparr>entries := (a, \<lparr>proxy_ref = next_ref reg, proxy_address = a\<rparr>) # entries reg,
          next_ref := Suc (next_ref reg)\<rparr>)"
  by (simp add: get_or_create_def Let_def)

lemma get_or_create_unreachable:
  "map_of (entries reg) a = None \<Longrightarrow> fst a \<notin> set (connections reg) \<Longrightarrow>
   get_or_create a reg = (Inl NodeUnreachable, reg)"
  by (simp add: get_or_create_def)

lemma get_or_create_keeps:
  "map_of (entries reg) a = Some p \<Longrightarrow> map_of (entries (snd (get_or_create b reg))) a = Some p"
  by (cases "a = b") (auto simp: get_or_create_def Let_def split: option.splits)

lemma resolve_all_keeps:
  "map_of (entries reg) a = Some p \<Longrightarrow> map_of (entries (resolve_all bs reg)) a = Some p"
  unfolding resolve_all_def
  by (induction bs arbitrary: reg) (simp_all add: get_or_create_keeps)

lemma get_or_create_ok:
  assumes "registry_ok reg"
  shows "registry_ok (snd (get_or_create a reg))"
proof (cases "map_of (entries reg) a")
  case (Some p)
  with assms show ?thesis by (simp add: get_or_create_hit)
next
  case None
  show ?thesis
  proof (cases "fst a \<in> set (connections reg)")
    case False
    with None assms show ?thesis by (simp add: get_or_create_unreachable)
  next
    case True
    have "a \<notin> fst ` set (entries reg)" using None by (simp add: map_of_eq_None_iff)
    moreover have "next_ref reg \<notin> (\<lambda>e. proxy_ref (snd e)) ` set (entries reg)"
      using assms by (auto simp: registry_ok_def list_all_iff)
    moreover have "list_all (\<lambda>e. proxy_address (snd e) = fst e \<and> proxy_ref (snd e) < Suc (next_ref reg)) (entries reg)"
      using assms by (auto simp: registry_ok_def list_all_iff)
    ultimately show ?thesis
      using assms by (simp add: get_or_create_miss[OF None True] registry_ok_def)
  qed
qed

lemma get_or_create_live:
  assumes "fst a \<in> set (connections reg)"
  shows "\<exists>p. get_or_create a reg = (Inr p, snd (get_or_create a reg)) \<and>
             map_of (entries (snd (get_or_create a reg))) a = Some p"
  using assms by (cases "map_of (entries reg) a") (auto simp: get_or_create_def Let_def)

lemma connect_resolved:
  assumes "net (h, p) = Inr a"
  shows "\<exists>x. fst (connect net h p reg) = Inr x \<and>
             map_of (entries (snd (connect net h p reg))) a = Some x"
proof -
  let ?reg = "reg\<lparr>connections := List.insert (fst a) (connections reg)\<rparr>"
  have "fst a \<in> set (connections ?reg)" by simp
  from get_or_create_live[OF this] obtain x where
    g: "get_or_create a ?reg = (Inr x, snd (get_or_create a ?reg))"
    and m: "map_of (entries (snd (get_or_create a ?reg))) a = Some x" by blast
  have c: "connect net h p reg = get_or_create a ?reg" using assms by (simp add: connect_def)
  have "fst (get_or_create a ?reg) = Inr x" using g by (metis fst_conv)
  with m show ?thesis unfolding c by blast
qed

lemma connect_hit:
  assumes "net (h, p) = Inr a" "map_of (entries reg) a = Some x"
  shows "fst (connect net h p reg) = Inr x"
  using assms by (simp add: connect_def get_or_create_def)

lemma connect_again:
  assumes "net (h, p) = Inr a" "net (h', p') = Inr a"
  shows "\<exists>x. fst (connect net h p reg) = Inr x \<and>
             fst (connect net h' p' (resolve_all bs (snd (connect net h p reg)))) = Inr x"
proof -
  from connect_resolved[of net h p a reg] assms(1) obtain x where
    x: "fst (connect net h p reg) = Inr x"
    "map_of (entries (snd (connect net h p reg))) a = Some x" by blast
  have "map_of (entries (resolve_all bs (snd (connect net h p reg)))) a = Some x"
    using x(2) by (rule resolve_all_keeps)
  with assms(2) have "fst (connect net h' p' (resolve_all bs (snd (connect net h p reg)))) = Inr x"
    by (simp add: connect_def get_or_create_def)
  with x(1) show ?thesis by blast
qed

lemma connect_ok:
  assumes "registry_ok reg"
  shows "registry_ok (snd (connect net h p reg))"
proof (cases "net (h, p)")
  case (Inl e)
  with assms show ?thesis by (simp add: connect_def)
next
  case (Inr a)
  have "registry_ok (reg\<lparr>connections := List.insert (fst a) (connections reg)\<rparr>)"
    using assms by (simp add: registry_ok_def)
  from get_or_create_ok[OF this, of a] Inr show ?thesis by (simp add: connect_def)
qed

lemma fold_max_ge: "x \<in> set xs \<Longrightarrow> x \<le> fold max xs (m::nat)"
proof (induction xs arbitrary: m)
  case Nil
  then show ?case by simp
next
  case (Cons y ys)
  have mono: "m \<le> fold max ys m" for m :: nat
    by (induction ys arbitrary: m) (auto intro: order_trans[OF max.cobounded2])
  show ?case
  proof (cases "x = y")
    case True
    then show ?thesis using mono[of "max y m"] by simp
  next
    case False
    with Cons show ?thesis by simp
  qed
qed

lemma ephemeral_port_fresh: "ephemeral_port bound \<notin> set bound" "ephemeral_port bound \<noteq> 0"
  using fold_max_ge[of "ephemeral_port bound" bound 0] by (auto simp: ephemeral_port_def)

lemma publish_success:
  assumes "fst (publish a r eps) = Inr p"
  shows "p \<notin> set (map fst eps)" "p \<noteq> 0" "snd (publish a r eps) = (p, a) # eps"
  using assms ephemeral_port_fresh[of "map fst eps"]
  by (auto simp: publish_def Let_def split: if_splits)

text \<open>The definitions a concrete registry is evaluated with.\<close>

lemmas reg_ev = publish_def handshake_def connect_def get_or_create_def new_registry_def
  ephemeral_port_def resolve_all_def registry_ok_def Let_def

text \<open>
  C2, as the model has it: \<open>get_or_create\<close> and \<open>connect\<close> keep the registry at one
  proxy per address. \<open>get_or_create\<close> returns the entry of an address that has one
  and leaves the registry as it is; for an address without an entry it creates one
  proxy, with an identity no entry has, and inserts it when the Connection to the
  address's node is live, and fails with NodeUnreachable, inserting nothing, when it
  is not. Two \<open>connect\<close> calls whose handshakes resolve to the same address return
  the same proxy object, whatever other lookups run between them.
\<close>

theorem proxy_identity:
  assumes "registry_ok reg"
  shows "registry_ok (snd (get_or_create a reg)) \<and>
         registry_ok (snd (connect net h p reg)) \<and>
         (case map_of (entries reg) a of
            Some x \<Rightarrow> get_or_create a reg = (Inr x, reg)
          | None \<Rightarrow>
              if fst a \<in> set (connections reg) then
                fst (get_or_create a reg) = Inr \<lparr>proxy_ref = next_ref reg, proxy_address = a\<rparr> \<and>
                entries (snd (get_or_create a reg)) =
                  (a, \<lparr>proxy_ref = next_ref reg, proxy_address = a\<rparr>) # entries reg \<and>
                next_ref reg \<notin> set (map (\<lambda>e. proxy_ref (snd e)) (entries reg))
              else get_or_create a reg = (Inl NodeUnreachable, reg)) \<and>
         (net (h, p) = Inr a \<and> net (h', p') = Inr a \<longrightarrow>
            (\<exists>x. fst (connect net h p reg) = Inr x \<and>
                 fst (connect net h' p' (resolve_all bs (snd (connect net h p reg)))) = Inr x))"
proof (intro conjI impI)
  show "registry_ok (snd (get_or_create a reg))" using assms by (rule get_or_create_ok)
  show "registry_ok (snd (connect net h p reg))" using assms by (rule connect_ok)
  have "next_ref reg \<notin> set (map (\<lambda>e. proxy_ref (snd e)) (entries reg))"
    using assms by (auto simp: registry_ok_def list_all_iff)
  then show "case map_of (entries reg) a of
            Some x \<Rightarrow> get_or_create a reg = (Inr x, reg)
          | None \<Rightarrow>
              if fst a \<in> set (connections reg) then
                fst (get_or_create a reg) = Inr \<lparr>proxy_ref = next_ref reg, proxy_address = a\<rparr> \<and>
                entries (snd (get_or_create a reg)) =
                  (a, \<lparr>proxy_ref = next_ref reg, proxy_address = a\<rparr>) # entries reg \<and>
                next_ref reg \<notin> set (map (\<lambda>e. proxy_ref (snd e)) (entries reg))
              else get_or_create a reg = (Inl NodeUnreachable, reg)"
    by (simp add: get_or_create_hit get_or_create_miss get_or_create_unreachable
        split: option.split)
  show "\<exists>x. fst (connect net h p reg) = Inr x \<and>
             fst (connect net h' p' (resolve_all bs (snd (connect net h p reg)))) = Inr x"
    if "net (h, p) = Inr a \<and> net (h', p') = Inr a"
    using that connect_again by blast
qed

theorem proxy_identity_witness:
  "registry_ok new_registry \<and>
   registry_ok (snd (connect (handshake [(4242, (7, 1))]) ''localhost'' 4242 new_registry)) \<and>
   get_or_create (7, 1) new_registry = (Inl NodeUnreachable, new_registry) \<and>
   fst (connect (handshake [(4242, (7, 1))]) ''localhost'' 4242 new_registry)
     = Inr \<lparr>proxy_ref = 0, proxy_address = (7, 1)\<rparr> \<and>
   fst (connect (handshake [(4242, (7, 1))]) ''localhost'' 4242
         (resolve_all [(7, 2), (7, 1), (8, 1)]
           (snd (connect (handshake [(4242, (7, 1))]) ''localhost'' 4242 new_registry))))
     = Inr \<lparr>proxy_ref = 0, proxy_address = (7, 1)\<rparr> \<and>
   entries (resolve_all [(7, 2), (7, 1), (8, 1)]
           (snd (connect (handshake [(4242, (7, 1))]) ''localhost'' 4242 new_registry)))
     = [((7, 2), \<lparr>proxy_ref = 1, proxy_address = (7, 2)\<rparr>),
        ((7, 1), \<lparr>proxy_ref = 0, proxy_address = (7, 1)\<rparr>)]"
proof -
  have ok: "registry_ok new_registry" by (simp add: reg_ev)
  note T = proxy_identity[OF ok, of "(7, 1)" "handshake [(4242, (7, 1))]" "''localhost''" 4242
      "''localhost''" 4242 "[(7, 2), (7, 1), (8, 1)]"]
  have hs: "handshake [(4242, (7, 1))] (''localhost'', 4242) = Inr (7, 1)" by (simp add: reg_ev)
  from T hs have "\<exists>x. fst (connect (handshake [(4242, (7, 1))]) ''localhost'' 4242 new_registry) = Inr x \<and>
     fst (connect (handshake [(4242, (7, 1))]) ''localhost'' 4242
         (resolve_all [(7, 2), (7, 1), (8, 1)]
           (snd (connect (handshake [(4242, (7, 1))]) ''localhost'' 4242 new_registry)))) = Inr x"
    by blast
  moreover have "fst (connect (handshake [(4242, (7, 1))]) ''localhost'' 4242 new_registry)
     = Inr \<lparr>proxy_ref = 0, proxy_address = (7, 1)\<rparr>" by (simp add: reg_ev)
  moreover have "entries (resolve_all [(7, 2), (7, 1), (8, 1)]
           (snd (connect (handshake [(4242, (7, 1))]) ''localhost'' 4242 new_registry)))
     = [((7, 2), \<lparr>proxy_ref = 1, proxy_address = (7, 2)\<rparr>),
        ((7, 1), \<lparr>proxy_ref = 0, proxy_address = (7, 1)\<rparr>)]" by (simp add: reg_ev)
  moreover have "get_or_create (7, 1) new_registry = (Inl NodeUnreachable, new_registry)"
    using T by (simp add: new_registry_def)
  ultimately show ?thesis using ok T by auto
qed

text \<open>
  C2 as stated fails: node 7 has no Connection, address (7, 1) has no entry, and
  \<open>get_or_create\<close> creates none.
\<close>

theorem get_or_create_unreachable_counterexample:
  "get_or_create (7, 1) new_registry = (Inl NodeUnreachable, new_registry) \<and>
   entries (snd (get_or_create (7, 1) new_registry)) = []"
  by (simp add: get_or_create_def new_registry_def)

text \<open>
  C5, as the model has it: two \<open>publish\<close> calls for one actor with requested port 0
  both succeed, their assigned ports differ, the handshake on either port answers
  with the actor's address, and connecting to one port and then to the other returns
  the same proxy. Every \<open>publish\<close> call that succeeds assigns a port that was not
  bound before and binds one endpoint more; a call with port 0 or with an unbound
  port succeeds; a call with an explicit port that is bound fails with PortInUse and
  binds nothing.
\<close>

theorem publish_distinct_ports:
  "(\<exists>p1 p2. fst (publish a 0 eps) = Inr p1 \<and>
        fst (publish a 0 (snd (publish a 0 eps))) = Inr p2 \<and> p1 \<noteq> p2 \<and>
        handshake (snd (publish a 0 (snd (publish a 0 eps)))) (h, p1) = Inr a \<and>
        handshake (snd (publish a 0 (snd (publish a 0 eps)))) (h, p2) = Inr a \<and>
        (\<exists>x. fst (connect (handshake (snd (publish a 0 (snd (publish a 0 eps))))) h p1 reg) = Inr x \<and>
             fst (connect (handshake (snd (publish a 0 (snd (publish a 0 eps))))) h p2
                   (snd (connect (handshake (snd (publish a 0 (snd (publish a 0 eps))))) h p1 reg))) = Inr x)) \<and>
   (fst (publish a r eps) = Inr p \<longrightarrow>
      p \<notin> set (map fst eps) \<and> p \<noteq> 0 \<and> snd (publish a r eps) = (p, a) # eps) \<and>
   (r \<noteq> 0 \<and> r \<in> set (map fst eps) \<longrightarrow> publish a r eps = (Inl PortInUse, eps)) \<and>
   (r = 0 \<or> r \<notin> set (map fst eps) \<longrightarrow> (\<exists>p. fst (publish a r eps) = Inr p))"
proof (intro conjI impI)
  let ?p1 = "ephemeral_port (map fst eps)"
  let ?eps1 = "(?p1, a) # eps"
  let ?p2 = "ephemeral_port (map fst ?eps1)"
  let ?eps2 = "(?p2, a) # ?eps1"
  have e1: "publish a 0 eps = (Inr ?p1, ?eps1)" by (simp add: publish_def Let_def)
  have e2: "publish a 0 ?eps1 = (Inr ?p2, ?eps2)" by (simp add: publish_def Let_def)
  have ne: "?p1 \<noteq> ?p2" using ephemeral_port_fresh(1)[of "map fst ?eps1"] by auto
  have h1: "handshake ?eps2 (h, ?p1) = Inr a" using ne by (simp add: handshake_def)
  have h2: "handshake ?eps2 (h, ?p2) = Inr a" by (simp add: handshake_def)
  from connect_again[of "handshake ?eps2" h ?p1 a h ?p2 reg "[]"] h1 h2
  have "\<exists>x. fst (connect (handshake ?eps2) h ?p1 reg) = Inr x \<and>
         fst (connect (handshake ?eps2) h ?p2 (snd (connect (handshake ?eps2) h ?p1 reg))) = Inr x"
    by (simp add: resolve_all_def)
  with ne h1 h2 show "\<exists>p1 p2. fst (publish a 0 eps) = Inr p1 \<and>
        fst (publish a 0 (snd (publish a 0 eps))) = Inr p2 \<and> p1 \<noteq> p2 \<and>
        handshake (snd (publish a 0 (snd (publish a 0 eps)))) (h, p1) = Inr a \<and>
        handshake (snd (publish a 0 (snd (publish a 0 eps)))) (h, p2) = Inr a \<and>
        (\<exists>x. fst (connect (handshake (snd (publish a 0 (snd (publish a 0 eps))))) h p1 reg) = Inr x \<and>
             fst (connect (handshake (snd (publish a 0 (snd (publish a 0 eps))))) h p2
                   (snd (connect (handshake (snd (publish a 0 (snd (publish a 0 eps))))) h p1 reg))) = Inr x)"
    unfolding e1 snd_conv fst_conv e2 by blast
  show "p \<notin> set (map fst eps)" "p \<noteq> 0" "snd (publish a r eps) = (p, a) # eps"
    if "fst (publish a r eps) = Inr p" using publish_success[OF that] by simp_all
  show "publish a r eps = (Inl PortInUse, eps)" if "r \<noteq> 0 \<and> r \<in> set (map fst eps)"
    using that by (simp add: publish_def)
  show "\<exists>p. fst (publish a r eps) = Inr p" if "r = 0 \<or> r \<notin> set (map fst eps)"
    using that by (auto simp: publish_def Let_def)
qed

theorem publish_distinct_ports_witness:
  "fst (publish (1, 1) 0 []) = Inr 1 \<and>
   fst (publish (1, 1) 0 (snd (publish (1, 1) 0 []))) = Inr 2 \<and>
   fst (connect (handshake (snd (publish (1, 1) 0 (snd (publish (1, 1) 0 []))))) ''localhost'' 1 new_registry)
     = Inr \<lparr>proxy_ref = 0, proxy_address = (1, 1)\<rparr> \<and>
   fst (connect (handshake (snd (publish (1, 1) 0 (snd (publish (1, 1) 0 []))))) ''localhost'' 2
         (snd (connect (handshake (snd (publish (1, 1) 0 (snd (publish (1, 1) 0 []))))) ''localhost'' 1 new_registry)))
     = Inr \<lparr>proxy_ref = 0, proxy_address = (1, 1)\<rparr> \<and>
   snd (publish (1, 1) 0 []) = [(1, (1, 1))] \<and>
   fst (publish (1, 1) 8080 [(1, (1, 1))]) = Inr 8080 \<and>
   publish (1, 1) 1 [(1, (1, 1))] = (Inl PortInUse, [(1, (1, 1))])"
  using publish_distinct_ports[of "(1, 1)" "[]" "''localhost''" new_registry 0 1]
    publish_distinct_ports[of "(1, 1)" "[(1, (1, 1))]" "''localhost''" new_registry 1 1]
  by (simp add: reg_ev)

text \<open>
  C5 as stated fails: the second \<open>publish\<close> of one actor on the explicit port 8080
  fails with PortInUse and allocates no endpoint.
\<close>

theorem publish_port_in_use_counterexample:
  "fst (publish (1, 1) 8080 (snd (publish (1, 1) 8080 []))) = Inl PortInUse \<and>
   snd (publish (1, 1) 8080 (snd (publish (1, 1) 8080 []))) = snd (publish (1, 1) 8080 [])"
  by (simp add: publish_def)

section \<open>Properties of \<open>any_type\<close>\<close>

text \<open>
  C8: the wildcard compares equal to everything. For every value \<open>x\<close> of every type,
  \<open>x == any_val\<close>, \<open>any_val == x\<close> and \<open>any_val == any_val\<close> are true, and the three
  \<open>!=\<close> comparisons are false.
\<close>

theorem any_type_universal_equality:
  "eq_T_any x any_val \<and> eq_any_T any_val x \<and> eq_any_any any_val any_val \<and>
   \<not> ne_T_any x any_val \<and> \<not> ne_any_T any_val x \<and> \<not> ne_any_any any_val any_val"
  by (simp add: eq_T_any_def eq_any_T_def eq_any_any_def ne_T_any_def ne_any_T_def ne_any_any_def)

end
